theory Spec2Isabelle
  imports Complex_Main "HOL-Library.Sublist"
begin

section \<open>Data model of \<open>src/loops.py\<close>\<close>

text \<open>
  Node identifiers are opaque (a type variable \<open>'n\<close>). A coordinate is the pair
  \<open>(y, x)\<close> that \<open>path_length_km\<close> reads from the node attributes. The geodesic
  distance of \<open>geopy\<close> is a parameter \<open>geodesic\<close> of the functions that use it.

  A Python float is a finite double, modelled by the real number it denotes (infinities
  and NaN are outside the model). Every arithmetic operation of the source is the exact
  operation followed by rounding to a double; the rounding function is the first
  parameter \<open>fl\<close> of every function that computes with floats, so that what is proved
  for all \<open>fl\<close> holds for the double arithmetic of the source and for exact arithmetic
  alike. Comparisons (also between an \<open>int\<close> and a float) and \<open>abs\<close> are exact in
  Python and carry no rounding. A Python \<open>int\<close> that meets a float in \<open>*\<close> is first
  converted, which is \<open>fl (real n)\<close>.
\<close>

type_synonym point = "real \<times> real"

text \<open>
  The exceptions that can leave the two functions: \<open>np.random.choice\<close> on an empty
  population (\<open>ValueError\<close>), a node without coordinates (\<open>KeyError\<close>), and
  \<open>nx.shortest_path\<close> on a node that is not in the graph (\<open>NodeNotFound\<close>).
  \<open>NetworkXNoPath\<close> is caught inside the loop and is an outcome of the oracle, not an
  error of \<open>find_loops\<close>.
\<close>

datatype error = ValueError | KeyError | NodeNotFound

datatype 'n sp_result = Found "'n list" | NoPath | NotInGraph

text \<open>
  The graph as \<open>find_loops\<close> and \<open>path_length_km\<close> use it: \<open>list(G.nodes)\<close>, the
  coordinate lookup \<open>(G.nodes[n]['y'], G.nodes[n]['x'])\<close>, and the collaborator
  \<open>nx.shortest_path(G, s, t, weight='length')\<close>.
\<close>

record 'n graph =
  nodes :: "'n list"
  coords :: "'n \<Rightarrow> point option"
  shortest_path :: "'n \<Rightarrow> 'n \<Rightarrow> 'n sp_result"

section \<open>\<open>path_length_km\<close>\<close>

text \<open>
  The loop \<open>for i in range(len(path)-1)\<close> with the accumulator \<open>dist\<close> (here
  \<open>dist_km\<close>): each round looks up the coordinates of \<open>path[i]\<close> and \<open>path[i+1]\<close> and
  adds their geodesic distance, \<open>dist += geodesic(p1, p2).km\<close>, a float addition. A path
  of fewer than two nodes runs no round and looks nothing up.
\<close>

fun path_length_acc ::
  "(real \<Rightarrow> real) \<Rightarrow> 'n graph \<Rightarrow> (point \<Rightarrow> point \<Rightarrow> real) \<Rightarrow> real \<Rightarrow> 'n list \<Rightarrow> error + real" where
  "path_length_acc fl G geodesic dist_km (n1 # n2 # rest) =
     (case coords G n1 of
        None \<Rightarrow> Inl KeyError
      | Some p1 \<Rightarrow>
          (case coords G n2 of
             None \<Rightarrow> Inl KeyError
           | Some p2 \<Rightarrow> path_length_acc fl G geodesic (fl (dist_km + geodesic p1 p2)) (n2 # rest)))"
| "path_length_acc fl G geodesic dist_km path = Inr dist_km"

definition path_length_km ::
  "(real \<Rightarrow> real) \<Rightarrow> 'n graph \<Rightarrow> (point \<Rightarrow> point \<Rightarrow> real) \<Rightarrow> 'n list \<Rightarrow> error + real" where
  "path_length_km fl G geodesic path = path_length_acc fl G geodesic 0 path"

section \<open>\<open>find_loops\<close>\<close>

text \<open>
  \<open>np.random.choice(nodes, 2)\<close> draws two positions of the population independently
  (its default is sampling with replacement) and raises on an empty population. The
  pseudorandom source is explicit: \<open>r\<close> holds the two raw numbers of one call, reduced
  to the index range.
\<close>

definition random_choice2 :: "'n list \<Rightarrow> nat \<times> nat \<Rightarrow> error + ('n \<times> 'n)" where
  "random_choice2 population r =
     (if population = [] then Inl ValueError
      else Inr (population ! (fst r mod length population),
                population ! (snd r mod length population)))"

text \<open>The two local variables the loop updates.\<close>

record 'n search_state =
  random_nodes :: "('n \<times> 'n) set"
  loops :: "('n list \<times> real) list"

text \<open>\<open>full_path = path1 + path2[1:] + path3[1:]\<close>\<close>

definition full_path :: "'n list \<Rightarrow> 'n list \<Rightarrow> 'n list \<Rightarrow> 'n list" where
  "full_path path1 path2 path3 = path1 @ drop 1 path2 @ drop 1 path3"

text \<open>
  The condition of the second \<open>continue\<close>:
  \<open>len(set(full_path)) <= max_percentage_of_duplicate_nodes * len(full_path)\<close>. The
  product is a float product of the threshold and the converted length; the comparison
  of the \<open>int\<close> on the left with it is exact.
\<close>

definition too_many_duplicates :: "(real \<Rightarrow> real) \<Rightarrow> real \<Rightarrow> 'n list \<Rightarrow> bool" where
  "too_many_duplicates fl max_percentage_of_duplicate_nodes path =
     (real (card (set path))
        \<le> fl (max_percentage_of_duplicate_nodes * fl (real (length path))))"

text \<open>
  \<open>abs(d - target_distance_km) <= target_distance_km * tolerance\<close>: a float difference
  and a float product.
\<close>

definition within_tolerance :: "(real \<Rightarrow> real) \<Rightarrow> real \<Rightarrow> real \<Rightarrow> real \<Rightarrow> bool" where
  "within_tolerance fl target_distance_km tolerance d =
     (\<bar>fl (d - target_distance_km)\<bar> \<le> fl (target_distance_km * tolerance))"

text \<open>
  The body of the loop after the draw, for the drawn pair \<open>(node1, node2)\<close>. Every
  \<open>continue\<close> returns the state reached so far; the pair is recorded in both
  orientations before the oracle is asked.
\<close>

definition try_pair ::
  "(real \<Rightarrow> real) \<Rightarrow> 'n graph \<Rightarrow> (point \<Rightarrow> point \<Rightarrow> real) \<Rightarrow> 'n \<Rightarrow> real \<Rightarrow> real \<Rightarrow> real \<Rightarrow>
     'n \<times> 'n \<Rightarrow> 'n search_state \<Rightarrow> error + 'n search_state" where
  "try_pair fl G geodesic start_node target_distance_km tolerance max_percentage pr st =
     (let node1 = fst pr; node2 = snd pr in
      if (node1, node2) \<in> random_nodes st then Inr st
      else
        let st1 = st\<lparr>random_nodes :=
                      insert (node2, node1) (insert (node1, node2) (random_nodes st))\<rparr> in
        case shortest_path G start_node node1 of
          NotInGraph \<Rightarrow> Inl NodeNotFound
        | NoPath \<Rightarrow> Inr st1
        | Found path1 \<Rightarrow>
            (case shortest_path G node1 node2 of
               NotInGraph \<Rightarrow> Inl NodeNotFound
             | NoPath \<Rightarrow> Inr st1
             | Found path2 \<Rightarrow>
                 (case shortest_path G node2 start_node of
                    NotInGraph \<Rightarrow> Inl NodeNotFound
                  | NoPath \<Rightarrow> Inr st1
                  | Found path3 \<Rightarrow>
                      if node1 \<in> set path3 \<or> node2 \<in> set path1 then Inr st1
                      else
                        let fp = full_path path1 path2 path3 in
                        if too_many_duplicates fl max_percentage fp then Inr st1
                        else
                          (case path_length_km fl G geodesic fp of
                             Inl e \<Rightarrow> Inl e
                           | Inr d \<Rightarrow>
                               if within_tolerance fl target_distance_km tolerance d
                               then Inr (st1\<lparr>loops := loops st1 @ [(fp, d)]\<rparr>)
                               else Inr st1))))"

text \<open>
  The \<open>for\<close> loop over the attempt numbers: attempt \<open>k\<close> draws with \<open>rng k\<close>. An
  exception ends the run.
\<close>

fun run_attempts ::
  "(real \<Rightarrow> real) \<Rightarrow> 'n graph \<Rightarrow> (point \<Rightarrow> point \<Rightarrow> real) \<Rightarrow> (nat \<Rightarrow> nat \<times> nat) \<Rightarrow>
     'n \<Rightarrow> real \<Rightarrow> real \<Rightarrow> real \<Rightarrow> nat list \<Rightarrow> 'n search_state \<Rightarrow> error + 'n search_state" where
  "run_attempts fl G geodesic rng start_node target tolerance max_percentage [] st = Inr st"
| "run_attempts fl G geodesic rng start_node target tolerance max_percentage (k # ks) st =
     (case random_choice2 (nodes G) (rng k) of
        Inl e \<Rightarrow> Inl e
      | Inr pr \<Rightarrow>
          (case try_pair fl G geodesic start_node target tolerance max_percentage pr st of
             Inl e \<Rightarrow> Inl e
           | Inr st' \<Rightarrow>
               run_attempts fl G geodesic rng start_node target tolerance max_percentage ks st'))"

definition initial_state :: "'n search_state" where
  "initial_state = \<lparr>random_nodes = {}, loops = []\<rparr>"

text \<open>
  \<open>range(num_attempts)\<close> is empty for a negative \<open>num_attempts\<close>, hence \<open>nat\<close>.
\<close>

definition find_loops ::
  "(real \<Rightarrow> real) \<Rightarrow> 'n graph \<Rightarrow> (point \<Rightarrow> point \<Rightarrow> real) \<Rightarrow> (nat \<Rightarrow> nat \<times> nat) \<Rightarrow>
     'n \<Rightarrow> real \<Rightarrow> int \<Rightarrow> real \<Rightarrow> real \<Rightarrow> error + ('n list \<times> real) list" where
  "find_loops fl G geodesic rng start_node target_distance_km num_attempts tolerance
       max_percentage_of_duplicate_nodes =
     (case run_attempts fl G geodesic rng start_node target_distance_km tolerance
             max_percentage_of_duplicate_nodes [0..<nat num_attempts] initial_state of
        Inl e \<Rightarrow> Inl e
      | Inr st \<Rightarrow> Inr (loops st))"

section \<open>\<open>filter_similar_loops\<close>\<close>

text \<open>
  \<open>sim = intersection / union if union else 0\<close>: the true division of two \<open>int\<close>s
  gives the double nearest to the quotient.
\<close>

definition jaccard :: "(real \<Rightarrow> real) \<Rightarrow> 'n set \<Rightarrow> 'n set \<Rightarrow> real" where
  "jaccard fl node_set prev_nodes =
     (let intersection = card (node_set \<inter> prev_nodes);
          union = card (node_set \<union> prev_nodes) in
      if union \<noteq> 0 then fl (real intersection / real union) else 0)"

text \<open>The inner loop over \<open>seen\<close>, which stops at the first set that is too similar.\<close>

fun too_similar :: "(real \<Rightarrow> real) \<Rightarrow> real \<Rightarrow> 'n set \<Rightarrow> 'n set list \<Rightarrow> bool" where
  "too_similar fl similarity_threshold node_set [] = False"
| "too_similar fl similarity_threshold node_set (prev_nodes # seen) =
     (if jaccard fl node_set prev_nodes > similarity_threshold then True
      else too_similar fl similarity_threshold node_set seen)"

text \<open>The outer loop, on the pair \<open>(unique_loops, seen)\<close>.\<close>

fun filter_from ::
  "(real \<Rightarrow> real) \<Rightarrow> real \<Rightarrow> ('n list \<times> real) list \<Rightarrow> ('n list \<times> real) list \<times> 'n set list \<Rightarrow>
     ('n list \<times> real) list \<times> 'n set list" where
  "filter_from fl similarity_threshold [] state = state"
| "filter_from fl similarity_threshold ((path, dist_km) # rest) (unique_loops, seen) =
     (let node_set = set path in
      if too_similar fl similarity_threshold node_set seen
      then filter_from fl similarity_threshold rest (unique_loops, seen)
      else filter_from fl similarity_threshold rest
             (unique_loops @ [(path, dist_km)], seen @ [node_set]))"

definition filter_similar_loops ::
  "(real \<Rightarrow> real) \<Rightarrow> ('n list \<times> real) list \<Rightarrow> real \<Rightarrow> ('n list \<times> real) list" where
  "filter_similar_loops fl loops_in similarity_threshold =
     fst (filter_from fl similarity_threshold loops_in ([], []))"

section \<open>What an accepted loop is built from\<close>

text \<open>
  \<open>built_from fl \<dots> (node1, node2) (path, d)\<close> collects everything the loop body has
  checked when it appends \<open>(path, d)\<close> for the drawn pair: the three legs exist, the
  alignment check and the duplicate check passed, \<open>d\<close> is the computed length and it
  lies within the tolerance.
\<close>

definition built_from ::
  "(real \<Rightarrow> real) \<Rightarrow> 'n graph \<Rightarrow> (point \<Rightarrow> point \<Rightarrow> real) \<Rightarrow> 'n \<Rightarrow> real \<Rightarrow> real \<Rightarrow> real \<Rightarrow>
     'n \<times> 'n \<Rightarrow> 'n list \<times> real \<Rightarrow> bool" where
  "built_from fl G geodesic start_node target tolerance max_percentage pr l =
     (\<exists>path1 path2 path3.
        shortest_path G start_node (fst pr) = Found path1 \<and>
        shortest_path G (fst pr) (snd pr) = Found path2 \<and>
        shortest_path G (snd pr) start_node = Found path3 \<and>
        fst pr \<notin> set path3 \<and> snd pr \<notin> set path1 \<and>
        fst l = full_path path1 path2 path3 \<and>
        \<not> too_many_duplicates fl max_percentage (fst l) \<and>
        path_length_km fl G geodesic (fst l) = Inr (snd l) \<and>
        within_tolerance fl target tolerance (snd l))"

section \<open>Rounding to a double\<close>

text \<open>
  Two instances of the rounding parameter. \<open>exact\<close> rounds nothing. \<open>round_double\<close>
  is rounding to the nearest binary64 number, ties to the even significand: a non-zero
  \<open>x\<close> with \<open>2^e \<le> |x| < 2^(e+1)\<close> is rounded to a multiple of \<open>2^(e-52)\<close>. The exponent
  range is not bounded (no overflow, no subnormal numbers): the distances, counts and
  fractions of this program are far from both ends.
\<close>

definition exact :: "real \<Rightarrow> real" where
  "exact x = x"

definition round_even :: "real \<Rightarrow> int" where
  "round_even q =
     (let f = \<lfloor>q\<rfloor>; r = q - of_int f in
      if r < 1 / 2 then f
      else if 1 / 2 < r then f + 1
      else if even f then f else f + 1)"

definition round_double :: "real \<Rightarrow> real" where
  "round_double x =
     (if x = 0 then 0
      else
        let ulp = 2 powr of_int (\<lfloor>log 2 \<bar>x\<bar>\<rfloor> - 52) in
        of_int (round_even (x / ulp)) * ulp)"

text \<open>
  What the proofs below use of double arithmetic: the relative error of rounding is at
  most \<open>2^-53\<close>, the counts below \<open>2^53\<close> are doubles, and the largest double below 1
  is \<open>1 - 2^-53\<close>.
\<close>

definition rounds_like_double :: "(real \<Rightarrow> real) \<Rightarrow> bool" where
  "rounds_like_double fl =
     ((\<forall>x. \<bar>fl x - x\<bar> \<le> \<bar>x\<bar> / 2 ^ 53) \<and>
      (\<forall>n. n < 2 ^ 53 \<longrightarrow> fl (real n) = real n) \<and>
      (\<forall>t. fl t = t \<and> t < 1 \<longrightarrow> t \<le> 1 - 1 / 2 ^ 53))"

text \<open>The doubles that Python prints as 0.1, 0.2, 0.3, 0.6 and 0.6666666666666666.\<close>

definition d01 :: real where
  "d01 = 3602879701896397 / 36028797018963968"

definition d02 :: real where
  "d02 = 3602879701896397 / 18014398509481984"

definition d03 :: real where
  "d03 = 5404319552844595 / 18014398509481984"

definition d06 :: real where
  "d06 = 5404319552844595 / 9007199254740992"

definition d0666 :: real where
  "d0666 = 6004799503160661 / 9007199254740992"

text \<open>
  The doubles that Python prints as 0.30000000000000004 and 0.6000000000000001.
\<close>

definition d03up :: real where
  "d03up = 5404319552844596 / 18014398509481984"

definition d06up :: real where
  "d06up = 5404319552844596 / 9007199254740992"

section \<open>A concrete graph\<close>

text \<open>
  The unit square 1 - 2 - 3 - 4 - 1 with an isolated fifth node, used to run the
  functions on concrete inputs. \<open>square_sp\<close> tabulates one shortest path per pair;
  \<open>taxicab\<close> stands for the distance function, and \<open>alternating\<close> is a pseudorandom
  source that draws the positions \<open>(1, 2)\<close> and \<open>(2, 1)\<close> in turn.
\<close>

definition square_sp :: "int \<Rightarrow> int \<Rightarrow> int sp_result" where
  "square_sp s t =
     (if s < 1 \<or> 5 < s \<or> t < 1 \<or> 5 < t then NotInGraph
      else if s = t then Found [s]
      else case map_of
        [((1, 2), [1, 2]), ((1, 3), [1, 2, 3]), ((1, 4), [1, 4]),
         ((2, 1), [2, 1]), ((2, 3), [2, 3]), ((2, 4), [2, 1, 4]),
         ((3, 1), [3, 4, 1]), ((3, 2), [3, 2]), ((3, 4), [3, 4]),
         ((4, 1), [4, 1]), ((4, 2), [4, 1, 2]), ((4, 3), [4, 3])] (s, t) of
          Some p \<Rightarrow> Found p
        | None \<Rightarrow> NoPath)"

definition square_graph :: "int graph" where
  "square_graph =
     \<lparr>nodes = [1, 2, 3, 4, 5],
      coords = map_of [(1, (0, 0)), (2, (0, 1)), (3, (1, 1)), (4, (1, 0)), (5, (7, 7))],
      shortest_path = square_sp\<rparr>"

definition taxicab :: "point \<Rightarrow> point \<Rightarrow> real" where
  "taxicab p q = \<bar>fst p - fst q\<bar> + \<bar>snd p - snd q\<bar>"

definition alternating :: "nat \<Rightarrow> nat \<times> nat" where
  "alternating k = (if even k then (1, 2) else (2, 1))"

text \<open>A source that draws position 2 twice in every call.\<close>

definition repeating :: "nat \<Rightarrow> nat \<times> nat" where
  "repeating k = (2, 2)"

text \<open>
  The same square with sides 2.5 and 4, and four nodes on a staircase whose steps are
  0.1, 0.2 and 0.3 long. All coordinates are doubles, and so are the distances
  \<open>taxicab\<close> gives between neighbours.
\<close>

definition rectangle_graph :: "int graph" where
  "rectangle_graph =
     \<lparr>nodes = [1, 2, 3, 4, 5],
      coords = map_of [(1, (0, 0)), (2, (0, 5 / 2)), (3, (4, 5 / 2)), (4, (4, 0)), (5, (7, 7))],
      shortest_path = square_sp\<rparr>"

definition staircase_graph :: "int graph" where
  "staircase_graph =
     \<lparr>nodes = [1, 2, 3, 4],
      coords = map_of [(1, (0, 0)), (2, (d01, 0)), (3, (d01, d02)), (4, (d01, 1 / 2))],
      shortest_path = square_sp\<rparr>"

section \<open>Facts about rounding\<close>

lemma round_even_of_int: "round_even (of_int k) = k"
  by (simp add: round_even_def)

lemma round_double_eval:
  assumes "2 powr of_int e \<le> \<bar>x\<bar>" "\<bar>x\<bar> < 2 powr of_int (e + 1)"
  shows "round_double x
           = of_int (round_even (x / 2 powr of_int (e - 52))) * 2 powr of_int (e - 52)"
proof -
  have "(0::real) < 2 powr of_int e" by simp
  with assms(1) have pos: "0 < \<bar>x\<bar>" by linarith
  then have nz: "x \<noteq> 0" by auto
  have "\<lfloor>log 2 \<bar>x\<bar>\<rfloor> = e"
    using assms pos by (subst floor_log_eq_powr_iff) (simp_all add: add.commute)
  with nz show ?thesis by (simp add: round_double_def Let_def)
qed

lemma binade_exists:
  assumes "x \<noteq> 0"
  shows "2 powr of_int \<lfloor>log 2 \<bar>x\<bar>\<rfloor> \<le> \<bar>x\<bar> \<and> \<bar>x\<bar> < 2 powr of_int (\<lfloor>log 2 \<bar>x\<bar>\<rfloor> + 1)"
proof -
  have "0 < \<bar>x\<bar>" using assms by simp
  with floor_log_eq_powr_iff[of "\<bar>x\<bar>" 2 "\<lfloor>log 2 \<bar>x\<bar>\<rfloor>"]
  have "2 powr of_int \<lfloor>log 2 \<bar>x\<bar>\<rfloor> \<le> \<bar>x\<bar> \<and> \<bar>x\<bar> < 2 powr (of_int \<lfloor>log 2 \<bar>x\<bar>\<rfloor> + 1)"
    by simp
  then show ?thesis by (simp add: add.commute)
qed

lemma round_double_dyadic:
  assumes "\<bar>m\<bar> < 2 ^ 53"
  shows "round_double (of_int m * 2 powr of_int j) = of_int m * 2 powr of_int j"
proof (cases "m = 0")
  case True
  then show ?thesis by (simp add: round_double_def)
next
  case False
  define b where "b = \<lfloor>log 2 \<bar>real_of_int m\<bar>\<rfloor>"
  from False have mnz: "real_of_int m \<noteq> 0" by simp
  from binade_exists[OF mnz]
  have lo: "2 powr of_int b \<le> \<bar>real_of_int m\<bar>"
    and hi: "\<bar>real_of_int m\<bar> < 2 powr of_int (b + 1)"
    by (simp_all add: b_def)
  have "(2::real) powr of_int b < 2 powr 53"
  proof -
    have "\<bar>real_of_int m\<bar> < 2 ^ 53"
      using assms by (metis of_int_abs of_int_less_numeral_power_cancel_iff)
    moreover have "(2::real) powr 53 = 2 ^ 53" by simp
    ultimately show ?thesis using lo by linarith
  qed
  then have "real_of_int b < 53" by (subst (asm) powr_less_cancel_iff) simp_all
  then have b52: "b \<le> 52" by linarith
  let ?x = "of_int m * 2 powr of_int j :: real"
  have ax: "\<bar>?x\<bar> = \<bar>real_of_int m\<bar> * 2 powr of_int j"
    by (simp add: abs_mult)
  have lo': "2 powr of_int (b + j) \<le> \<bar>?x\<bar>"
    using lo by (simp add: ax powr_add)
  have hi': "\<bar>?x\<bar> < 2 powr of_int (b + j + 1)"
  proof -
    have "\<bar>real_of_int m\<bar> * 2 powr of_int j < 2 powr of_int (b + 1) * 2 powr of_int j"
      using hi by (intro mult_strict_right_mono) simp_all
    then show ?thesis by (simp add: ax powr_add algebra_simps)
  qed
  have q: "?x / 2 powr of_int (b + j - 52) = of_int (m * 2 ^ nat (52 - b))"
  proof -
    have d: "(2::real) powr of_int j / 2 powr of_int (b + j - 52)
               = 2 powr (real_of_int j - real_of_int (b + j - 52))"
      by (rule powr_diff[symmetric])
    have e: "real_of_int j - real_of_int (b + j - 52) = real (nat (52 - b))"
      using b52 by simp
    have p: "(2::real) powr real (nat (52 - b)) = 2 ^ nat (52 - b)"
      by (rule powr_realpow) simp
    have "?x / 2 powr of_int (b + j - 52)
            = of_int m * ((2::real) powr of_int j / 2 powr of_int (b + j - 52))"
      by (simp only: times_divide_eq_right)
    also have "\<dots> = of_int m * 2 ^ nat (52 - b)"
      by (simp only: d e p)
    finally show ?thesis by simp
  qed
  have "round_double ?x
          = of_int (round_even (?x / 2 powr of_int (b + j - 52))) * 2 powr of_int (b + j - 52)"
    using lo' hi' by (rule round_double_eval)
  also have "\<dots> = of_int (m * 2 ^ nat (52 - b)) * 2 powr of_int (b + j - 52)"
    by (simp only: q round_even_of_int)
  also have "\<dots> = (?x / 2 powr of_int (b + j - 52)) * 2 powr of_int (b + j - 52)"
    by (simp only: q)
  also have "\<dots> = ?x" by simp
  finally show ?thesis .
qed

lemma round_double_of_int:
  "\<bar>m\<bar> < 2 ^ 53 \<Longrightarrow> round_double (of_int m) = of_int m"
  using round_double_dyadic[of m 0] by simp

lemma round_double_zero: "round_double 0 = 0"
  by (simp add: round_double_def)

lemma round_double_one: "round_double 1 = 1"
  using round_double_of_int[of 1] by simp

lemma round_double_numeral:
  "numeral k < (2::int) ^ 53 \<Longrightarrow> round_double (numeral k) = numeral k"
  using round_double_of_int[of "numeral k"] by simp

lemma round_double_neg_numeral:
  "numeral k < (2::int) ^ 53 \<Longrightarrow> round_double (- numeral k) = - numeral k"
  using round_double_of_int[of "- numeral k"] by simp

lemma round_double_over_power:
  assumes "\<bar>m\<bar> < 2 ^ 53"
  shows "round_double (of_int m / 2 ^ n) = of_int m / 2 ^ n"
proof -
  have "(2::real) powr of_int (- int n) = 1 / 2 ^ n"
    by (simp add: powr_minus powr_realpow divide_inverse)
  with round_double_dyadic[OF assms, of "- int n"] show ?thesis by simp
qed

lemma round_double_half:
  "numeral k < (2::int) ^ 53 \<Longrightarrow> round_double (numeral k / 2) = numeral k / 2"
  using round_double_over_power[of "numeral k" 1] by simp

lemma round_double_quarter:
  "numeral k < (2::int) ^ 53 \<Longrightarrow> round_double (numeral k / 4) = numeral k / 4"
  using round_double_over_power[of "numeral k" 2] by simp

lemma round_double_eighth:
  "numeral k < (2::int) ^ 53 \<Longrightarrow> round_double (numeral k / 8) = numeral k / 8"
  using round_double_over_power[of "numeral k" 3] by simp

lemma round_double_unit_half: "round_double (1 / 2) = 1 / 2"
  using round_double_over_power[of 1 1] by simp

lemmas round_double_simps =
  round_double_zero round_double_one round_double_numeral round_double_neg_numeral
  round_double_half round_double_quarter round_double_eighth round_double_unit_half

lemma round_even_error: "\<bar>of_int (round_even q) - q\<bar> \<le> 1 / 2"
  unfolding round_even_def Let_def by (simp add: abs_le_iff)

lemma round_double_error: "\<bar>round_double x - x\<bar> \<le> \<bar>x\<bar> / 2 ^ 53"
proof (cases "x = 0")
  case True
  then show ?thesis by (simp add: round_double_def)
next
  case False
  define e where "e = \<lfloor>log 2 \<bar>x\<bar>\<rfloor>"
  define u :: real where "u = 2 powr of_int (e - 52)"
  have u0: "0 < u" by (simp add: u_def)
  from binade_exists[OF False] have lo: "2 powr of_int e \<le> \<bar>x\<bar>" by (simp add: e_def)
  have "u = 2 powr (real_of_int e - 52)"
    by (simp add: u_def)
  also have "\<dots> = 2 powr of_int e / 2 powr 52"
    by (rule powr_diff)
  also have "\<dots> = 2 powr of_int e / 2 ^ 52"
    by simp
  also have "\<dots> \<le> \<bar>x\<bar> / 2 ^ 52"
    using lo by (intro divide_right_mono) simp_all
  finally have ub: "u \<le> \<bar>x\<bar> / 2 ^ 52" .
  have rd: "round_double x = of_int (round_even (x / u)) * u"
    using False by (simp add: round_double_def Let_def e_def u_def)
  have "round_double x - x = (of_int (round_even (x / u)) - x / u) * u"
    using u0 by (simp add: rd algebra_simps)
  then have "\<bar>round_double x - x\<bar> = \<bar>of_int (round_even (x / u)) - x / u\<bar> * u"
    using u0 by (simp add: abs_mult)
  also have "\<dots> \<le> 1 / 2 * u"
    using round_even_error[of "x / u"] u0 by (intro mult_right_mono) simp_all
  also have "\<dots> \<le> 1 / 2 * (\<bar>x\<bar> / 2 ^ 52)"
    using ub by simp
  finally show ?thesis by simp
qed

lemma ten_times_d03: "round_double (10 * d03) = 3"
proof -
  have "round_double (10 * d03)
          = of_int (round_even (10 * d03 / 2 powr of_int (1 - 52))) * 2 powr of_int (1 - 52)"
    by (rule round_double_eval) (simp_all add: d03_def)
  also have "\<dots> = 3"
    by (simp add: d03_def round_even_def Let_def powr_neg_numeral)
  finally show ?thesis .
qed

lemma round_double_d01: "round_double d01 = d01"
  using round_double_over_power[of 3602879701896397 55] by (simp add: d01_def)

lemma d01_plus_d02: "round_double (d01 + d02) = d03up"
proof -
  have "round_double (d01 + d02)
          = of_int (round_even ((d01 + d02) / 2 powr of_int (- 2 - 52)))
              * 2 powr of_int (- 2 - 52)"
    by (rule round_double_eval) (simp_all add: d01_def d02_def powr_neg_numeral)
  also have "\<dots> = d03up"
    by (simp add: d01_def d02_def d03up_def round_even_def Let_def powr_neg_numeral)
  finally show ?thesis .
qed

lemma d03up_plus_d03: "round_double (d03up + d03) = d06up"
proof -
  have "round_double (d03up + d03)
          = of_int (round_even ((d03up + d03) / 2 powr of_int (- 1 - 52)))
              * 2 powr of_int (- 1 - 52)"
    by (rule round_double_eval) (simp_all add: d03up_def d03_def powr_neg_numeral)
  also have "\<dots> = d06up"
    by (simp add: d03up_def d03_def d06up_def round_even_def Let_def powr_neg_numeral)
  finally show ?thesis .
qed

lemma five_times_d06: "round_double (d06 * 5) = 3"
proof -
  have "round_double (d06 * 5)
          = of_int (round_even (d06 * 5 / 2 powr of_int (1 - 52))) * 2 powr of_int (1 - 52)"
    by (rule round_double_eval) (simp_all add: d06_def)
  also have "\<dots> = 3"
    by (simp add: d06_def round_even_def Let_def powr_neg_numeral)
  finally show ?thesis .
qed

text \<open>
  The named constants are doubles, and the first four are what rounding makes of the
  decimal literals.
\<close>

lemma decimal_literals:
  "round_double (1 / 10) = d01"
  "round_double (1 / 5) = d02"
  "round_double (3 / 10) = d03"
  "round_double (3 / 5) = d06"
proof -
  have "round_double (1 / 10)
          = of_int (round_even (1 / 10 / 2 powr of_int (- 4 - 52))) * 2 powr of_int (- 4 - 52)"
    by (rule round_double_eval) (simp_all add: powr_neg_numeral)
  also have "\<dots> = d01"
    by (simp add: d01_def round_even_def Let_def powr_neg_numeral)
  finally show "round_double (1 / 10) = d01" .
  have "round_double (1 / 5)
          = of_int (round_even (1 / 5 / 2 powr of_int (- 3 - 52))) * 2 powr of_int (- 3 - 52)"
    by (rule round_double_eval) (simp_all add: powr_neg_numeral)
  also have "\<dots> = d02"
    by (simp add: d02_def round_even_def Let_def powr_neg_numeral)
  finally show "round_double (1 / 5) = d02" .
  have "round_double (3 / 10)
          = of_int (round_even (3 / 10 / 2 powr of_int (- 2 - 52))) * 2 powr of_int (- 2 - 52)"
    by (rule round_double_eval) (simp_all add: powr_neg_numeral)
  also have "\<dots> = d03"
    by (simp add: d03_def round_even_def Let_def powr_neg_numeral)
  finally show "round_double (3 / 10) = d03" .
  have "round_double (3 / 5)
          = of_int (round_even (3 / 5 / 2 powr of_int (- 1 - 52))) * 2 powr of_int (- 1 - 52)"
    by (rule round_double_eval) (simp_all add: powr_neg_numeral)
  also have "\<dots> = d06"
    by (simp add: d06_def round_even_def Let_def powr_neg_numeral)
  finally show "round_double (3 / 5) = d06" .
qed

lemma named_doubles:
  "round_double d01 = d01" "round_double d02 = d02" "round_double d03 = d03"
  "round_double d06 = d06" "round_double d0666 = d0666"
  "round_double d03up = d03up" "round_double d06up = d06up"
  using round_double_over_power[of 3602879701896397 55]
        round_double_over_power[of 3602879701896397 54]
        round_double_over_power[of 5404319552844595 54]
        round_double_over_power[of 5404319552844595 53]
        round_double_over_power[of 6004799503160661 53]
        round_double_over_power[of 5404319552844596 54]
        round_double_over_power[of 5404319552844596 53]
  by (simp_all add: d01_def d02_def d03_def d06_def d0666_def d03up_def d06up_def)

lemma round_double_below_one:
  assumes "round_double t = t" "t < 1"
  shows "t \<le> 1 - 1 / 2 ^ 53"
proof (cases "t \<le> 1 / 2")
  case True
  then show ?thesis by simp
next
  case False
  then have lo: "2 powr of_int (- 1) \<le> \<bar>t\<bar>" by (simp add: powr_neg_numeral powr_minus)
  from False assms(2) have hi: "\<bar>t\<bar> < 2 powr of_int (- 1 + 1)" by simp
  define M where "M = round_even (t / 2 powr of_int (- 1 - 52))"
  from round_double_eval[OF lo hi] assms(1)
  have t: "t = of_int M * 2 powr of_int (- 1 - 52)" by (simp add: M_def)
  have p: "(2::real) powr of_int (- 1 - 52) = 1 / 2 ^ 53"
    by (simp add: powr_neg_numeral)
  from t p have tM: "t = of_int M / 2 ^ 53" by simp
  with assms(2) have "real_of_int M < 2 ^ 53" by simp
  then have "M < 2 ^ 53" by (simp only: of_int_less_numeral_power_cancel_iff)
  then have "M \<le> 2 ^ 53 - 1" by simp
  then have "real_of_int M \<le> real_of_int (2 ^ 53 - 1)" by (simp only: of_int_le_iff)
  also have "real_of_int (2 ^ 53 - 1) = 2 ^ 53 - 1" by simp
  finally have "real_of_int M / 2 ^ 53 \<le> (2 ^ 53 - 1) / 2 ^ 53"
    by (intro divide_right_mono) simp_all
  also have "((2::real) ^ 53 - 1) / 2 ^ 53 = 1 - 1 / 2 ^ 53"
    by (simp add: diff_divide_distrib)
  finally show ?thesis by (simp only: tM)
qed

lemma round_double_like: "rounds_like_double round_double"
  unfolding rounds_like_double_def
proof (intro conjI allI impI)
  fix x show "\<bar>round_double x - x\<bar> \<le> \<bar>x\<bar> / 2 ^ 53" by (rule round_double_error)
next
  fix n :: nat assume "n < 2 ^ 53"
  then have "\<bar>int n\<bar> < 2 ^ 53" by (metis abs_of_nat of_nat_less_numeral_power_cancel_iff)
  from round_double_of_int[OF this] show "round_double (real n) = real n" by simp
next
  fix t assume "round_double t = t \<and> t < 1"
  then show "t \<le> 1 - 1 / 2 ^ 53" using round_double_below_one by blast
qed

lemma product_below_count:
  assumes fl: "rounds_like_double fl" and t: "fl t = t" "t < 1" and n: "0 < n" "n < 2 ^ 53"
  shows "fl (t * fl (real n)) < real n"
proof -
  from fl n(2) have fn: "fl (real n) = real n"
    by (simp add: rounds_like_double_def)
  from fl t have tc: "t \<le> 1 - 1 / 2 ^ 53"
    by (simp add: rounds_like_double_def)
  define x where "x = t * real n"
  from fl have err: "\<bar>fl x - x\<bar> \<le> \<bar>x\<bar> / 2 ^ 53"
    by (simp add: rounds_like_double_def)
  have n0: "0 < real n" using n(1) by simp
  have "fl x < real n"
  proof (cases "x \<le> 0")
    case True
    then have "\<bar>x\<bar> = - x" by simp
    with err have "\<bar>fl x - x\<bar> \<le> - x / 2 ^ 53" by simp
    then have "fl x - x \<le> - x / 2 ^ 53" by linarith
    then have "fl x \<le> x - x / 2 ^ 53" by linarith
    also have "\<dots> = x * (1 - 1 / 2 ^ 53)" by (simp add: algebra_simps)
    also have "\<dots> \<le> 0" using True by (intro mult_nonpos_nonneg) simp_all
    finally show ?thesis using n0 by simp
  next
    case False
    then have xp: "0 < x" by simp
    from tc n0 have xc: "x \<le> (1 - 1 / 2 ^ 53) * real n"
      unfolding x_def by (intro mult_right_mono) simp_all
    from xp have "\<bar>x\<bar> = x" by simp
    with err have "\<bar>fl x - x\<bar> \<le> x / 2 ^ 53" by simp
    then have "fl x - x \<le> x / 2 ^ 53" by linarith
    then have "fl x \<le> x + x / 2 ^ 53" by linarith
    also have "\<dots> = x * (1 + 1 / 2 ^ 53)" by (simp add: algebra_simps)
    also have "\<dots> \<le> ((1 - 1 / 2 ^ 53) * real n) * (1 + 1 / 2 ^ 53)"
      using xc by (intro mult_right_mono) simp_all
    also have "\<dots> = real n * ((1 - 1 / 2 ^ 53) * (1 + 1 / 2 ^ 53))"
      by (simp add: algebra_simps)
    also have "\<dots> < real n * 1"
      using n0 by (intro mult_strict_left_mono) simp_all
    finally show ?thesis by simp
  qed
  then show ?thesis by (simp add: x_def fn)
qed

section \<open>Lemmas on the search loop\<close>

lemmas run_simps =
  find_loops_def initial_state_def upt_conv_Cons card_insert_if random_choice2_def
  square_graph_def alternating_def try_pair_def square_sp_def full_path_def
  too_many_duplicates_def path_length_km_def taxicab_def within_tolerance_def Let_def
  round_double_simps

lemma square_run:
  "find_loops round_double square_graph taxicab alternating 1 4 2 (1 / 8) (1 / 2)
     = Inr [([1, 2, 3, 4, 1], 4)]"
  by (simp add: run_simps)

lemma try_pair_loops:
  assumes "try_pair fl G geodesic s tg tol mp pr st = Inr st'"
  shows "loops st' = loops st \<or>
         (\<exists>l. loops st' = loops st @ [l] \<and> pr \<notin> random_nodes st \<and>
              built_from fl G geodesic s tg tol mp pr l)"
  using assms
  by (auto simp: try_pair_def built_from_def Let_def
           split: if_splits sp_result.splits sum.splits)

lemma run_attempts_loops:
  assumes "run_attempts fl G geodesic rng s tg tol mp ks st = Inr st'"
      and "l \<in> set (loops st')"
  shows "l \<in> set (loops st) \<or>
         (\<exists>k pr. k \<in> set ks \<and> random_choice2 (nodes G) (rng k) = Inr pr \<and>
                 built_from fl G geodesic s tg tol mp pr l)"
  using assms
proof (induction ks arbitrary: st)
  case Nil
  then show ?case by simp
next
  case (Cons k ks)
  from Cons.prems(1) obtain pr st1 where
    pr: "random_choice2 (nodes G) (rng k) = Inr pr" and
    st1: "try_pair fl G geodesic s tg tol mp pr st = Inr st1" and
    rest: "run_attempts fl G geodesic rng s tg tol mp ks st1 = Inr st'"
    by (auto split: sum.splits)
  from Cons.IH[OF rest Cons.prems(2)] show ?case
  proof
    assume "l \<in> set (loops st1)"
    with try_pair_loops[OF st1]
    have "l \<in> set (loops st) \<or> built_from fl G geodesic s tg tol mp pr l" by auto
    then show ?thesis
    proof
      assume "l \<in> set (loops st)"
      then show ?thesis by simp
    next
      assume "built_from fl G geodesic s tg tol mp pr l"
      with pr have "k \<in> set (k # ks) \<and> random_choice2 (nodes G) (rng k) = Inr pr \<and>
                    built_from fl G geodesic s tg tol mp pr l" by simp
      then show ?thesis by blast
    qed
  next
    assume "\<exists>k pr. k \<in> set ks \<and> random_choice2 (nodes G) (rng k) = Inr pr \<and>
                 built_from fl G geodesic s tg tol mp pr l"
    then show ?thesis by auto
  qed
qed

lemma find_loops_origin:
  assumes "find_loops fl G geodesic rng s tg n tol mp = Inr ls" and "l \<in> set ls"
  shows "\<exists>k pr. k < nat n \<and> random_choice2 (nodes G) (rng k) = Inr pr \<and>
                built_from fl G geodesic s tg tol mp pr l"
proof -
  from assms(1) obtain st where
    run: "run_attempts fl G geodesic rng s tg tol mp [0..<nat n] initial_state = Inr st"
    and ls: "ls = loops st"
    by (auto simp: find_loops_def split: sum.splits)
  from run_attempts_loops[OF run] assms(2) ls show ?thesis
    by (auto simp: initial_state_def)
qed

section \<open>Path length\<close>

lemma path_length_acc_fold:
  "set path \<subseteq> dom (coords G) \<Longrightarrow>
   path_length_acc fl G geodesic a path =
     Inr (foldl (\<lambda>s (u, v). fl (s + geodesic (the (coords G u)) (the (coords G v))))
            a (zip path (drop 1 path)))"
proof (induction fl G geodesic a path rule: path_length_acc.induct)
  case (1 fl G geodesic dist_km n1 n2 rest)
  then show ?case by (auto simp: dom_def)
qed simp_all

lemma foldl_exact_sum:
  "foldl (\<lambda>s (u, v). exact (s + g u v)) a ps = a + (\<Sum>(u, v)\<leftarrow>ps. g u v)"
  by (induction ps arbitrary: a) (auto simp: exact_def)

lemma staircase_steps:
  "taxicab (0, 0) (d01, 0) = d01"
  "taxicab (d01, 0) (d01, d02) = d02"
  "taxicab (d01, d02) (d01, 1 / 2) = d03"
  by (simp_all add: taxicab_def d01_def d02_def d03_def)

lemma staircase_length:
  "path_length_km round_double staircase_graph taxicab [1, 2, 3, 4] = Inr d06up"
  by (simp add: path_length_km_def staircase_graph_def staircase_steps
      round_double_d01 d01_plus_d02 d03up_plus_d03)

lemma staircase_exact: "d06up \<noteq> d01 + d02 + d03"
  by (simp add: d01_def d02_def d03_def d06up_def)

text \<open>
  C9 (as amended). \<open>path_length_km\<close> returns the sum of the geodesic distances of the
  consecutive node pairs of the path as the loop computes it: from 0.0, each distance
  is added in path order and every partial sum is rounded to a double (whenever every
  node of the path has coordinates; without rounding this is the sum). It is exactly 0
  for a single node and the distance of the two endpoints for a two-node path. The
  function only reads the graph and returns a number.
\<close>

theorem path_length_km_sum:
  "path_length_km fl G geodesic [n] = Inr 0 \<and>
   (coords G a = Some p \<and> coords G b = Some q \<and> fl (geodesic p q) = geodesic p q \<longrightarrow>
      path_length_km fl G geodesic [a, b] = Inr (geodesic p q)) \<and>
   (set path \<subseteq> dom (coords G) \<longrightarrow>
      path_length_km fl G geodesic path =
        Inr (foldl (\<lambda>s (u, v). fl (s + geodesic (the (coords G u)) (the (coords G v))))
               0 (zip path (drop 1 path)))) \<and>
   (set path \<subseteq> dom (coords G) \<longrightarrow>
      path_length_km exact G geodesic path =
        Inr (\<Sum>(u, v)\<leftarrow>zip path (drop 1 path).
               geodesic (the (coords G u)) (the (coords G v))))"
proof (intro conjI impI)
  show "path_length_km fl G geodesic [n] = Inr 0"
    by (simp add: path_length_km_def)
next
  assume "coords G a = Some p \<and> coords G b = Some q \<and> fl (geodesic p q) = geodesic p q"
  then show "path_length_km fl G geodesic [a, b] = Inr (geodesic p q)"
    by (simp add: path_length_km_def)
next
  assume "set path \<subseteq> dom (coords G)"
  then show "path_length_km fl G geodesic path =
        Inr (foldl (\<lambda>s (u, v). fl (s + geodesic (the (coords G u)) (the (coords G v))))
               0 (zip path (drop 1 path)))"
    by (simp add: path_length_km_def path_length_acc_fold)
next
  assume "set path \<subseteq> dom (coords G)"
  then show "path_length_km exact G geodesic path =
        Inr (\<Sum>(u, v)\<leftarrow>zip path (drop 1 path).
               geodesic (the (coords G u)) (the (coords G v)))"
    by (simp add: path_length_km_def path_length_acc_fold foldl_exact_sum)
qed

theorem path_length_km_sum_witness:
  "path_length_km round_double square_graph taxicab [5] = Inr 0 \<and>
   path_length_km round_double square_graph taxicab [1, 3] = Inr (taxicab (0, 0) (1, 1)) \<and>
   path_length_km round_double square_graph taxicab [1, 2, 3, 4, 1] = Inr 4 \<and>
   path_length_km exact square_graph taxicab [1, 2, 3, 4, 1] = Inr 4"
proof -
  have dom: "set [1, 2, 3, 4, 1] \<subseteq> dom (coords square_graph)"
    by (simp add: square_graph_def)
  have a: "path_length_km round_double square_graph taxicab [5] = Inr 0"
    using path_length_km_sum[where fl = round_double and G = square_graph
        and geodesic = taxicab and n = 5, THEN conjunct1] .
  have b: "path_length_km round_double square_graph taxicab [1, 3] = Inr (taxicab (0, 0) (1, 1))"
    using path_length_km_sum[where fl = round_double and G = square_graph
        and geodesic = taxicab and a = 1 and p = "(0, 0)" and b = 3 and q = "(1, 1)",
        THEN conjunct2, THEN conjunct1]
    by (simp add: square_graph_def taxicab_def round_double_simps)
  have c: "path_length_km round_double square_graph taxicab [1, 2, 3, 4, 1] = Inr 4"
    using path_length_km_sum[where fl = round_double and G = square_graph
        and geodesic = taxicab and path = "[1, 2, 3, 4, 1]",
        THEN conjunct2, THEN conjunct2, THEN conjunct1] dom
    by (simp add: square_graph_def taxicab_def round_double_simps)
  have d: "path_length_km exact square_graph taxicab [1, 2, 3, 4, 1] = Inr 4"
    using path_length_km_sum[where G = square_graph
        and geodesic = taxicab and path = "[1, 2, 3, 4, 1]",
        THEN conjunct2, THEN conjunct2, THEN conjunct2] dom
    by (simp add: square_graph_def taxicab_def)
  from a b c d show ?thesis by simp
qed

text \<open>
  C9 as stated (the result equals the sum of the distances) fails: along the staircase
  the distances are the doubles 0.1, 0.2 and 0.3, the loop returns 0.6000000000000001,
  and that is not their sum.
\<close>

theorem path_length_km_exact_sum_counterexample:
  "path_length_km round_double staircase_graph taxicab [1, 2, 3, 4] = Inr d06up \<and>
   (\<Sum>(u, v)\<leftarrow>zip [1, 2, 3, 4] (drop 1 [1, 2, 3, 4]).
       taxicab (the (coords staircase_graph u)) (the (coords staircase_graph v)))
     = d01 + d02 + d03 \<and>
   d06up \<noteq> d01 + d02 + d03"
proof (intro conjI)
  show "path_length_km round_double staircase_graph taxicab [1, 2, 3, 4] = Inr d06up"
    by (rule staircase_length)
  show "(\<Sum>(u, v)\<leftarrow>zip [1, 2, 3, 4] (drop 1 [1, 2, 3, 4]).
       taxicab (the (coords staircase_graph u)) (the (coords staircase_graph v)))
     = d01 + d02 + d03"
    by (simp add: staircase_graph_def staircase_steps)
  show "d06up \<noteq> d01 + d02 + d03"
    by (rule staircase_exact)
qed

section \<open>Accepted loops\<close>

lemma rectangle_run:
  "find_loops round_double rectangle_graph taxicab alternating 1 10 1 d03 (1 / 2)
     = Inr [([1, 2, 3, 4, 1], 13)]"
  by (simp add: find_loops_def initial_state_def upt_conv_Cons card_insert_if
      random_choice2_def rectangle_graph_def alternating_def try_pair_def square_sp_def
      full_path_def too_many_duplicates_def path_length_km_def taxicab_def
      within_tolerance_def Let_def round_double_simps ten_times_d03)

lemma rectangle_exact: "\<not> \<bar>13 - 10\<bar> \<le> 10 * d03"
  by (simp add: d03_def)

text \<open>
  C1 (as amended). Every pair \<open>(path, d)\<close> in the list \<open>find_loops\<close> returns stores the
  length that \<open>path_length_km\<close> computes for \<open>path\<close>, and that length passed the test
  \<open>abs(d - target) <= target * tolerance\<close> as the code evaluates it, with the difference
  and the product each rounded to a double (without rounding:
  \<open>|d - target| \<le> target * tolerance\<close>).
\<close>

theorem find_loops_length_within_tolerance:
  assumes "find_loops fl G geodesic rng start_node target num_attempts tolerance max_percentage
             = Inr ls"
      and "(path, d) \<in> set ls"
  shows "path_length_km fl G geodesic path = Inr d \<and>
         \<bar>fl (d - target)\<bar> \<le> fl (target * tolerance)"
  using find_loops_origin[OF assms]
  by (auto simp: built_from_def within_tolerance_def)

theorem find_loops_length_within_tolerance_witness:
  "find_loops round_double square_graph taxicab alternating 1 4 2 (1 / 8) (1 / 2)
     = Inr [([1, 2, 3, 4, 1], 4)] \<and>
   path_length_km round_double square_graph taxicab [1, 2, 3, 4, 1] = Inr 4 \<and>
   \<bar>round_double (4 - 4)\<bar> \<le> round_double (4 * (1 / 8))"
  using find_loops_length_within_tolerance[OF square_run, of "[1, 2, 3, 4, 1]" 4] square_run
  by simp

text \<open>
  C1 as stated (the inequality of the numbers themselves) fails: on the rectangle with
  sides 2.5 and 4, target 10 and tolerance 0.3, the loop of length 13 is returned,
  because the product of 10 and the double 0.3 rounds to 3, while 3 is greater than
  that product.
\<close>

theorem find_loops_exact_tolerance_counterexample:
  "find_loops round_double rectangle_graph taxicab alternating 1 10 1 d03 (1 / 2)
     = Inr [([1, 2, 3, 4, 1], 13)] \<and>
   \<not> \<bar>13 - 10\<bar> \<le> 10 * d03"
  using rectangle_run rectangle_exact by simp

section \<open>Joining the legs\<close>

lemma square_sp_ends:
  "square_sp s t = Found p \<Longrightarrow> p \<noteq> [] \<and> hd p = s \<and> last p = t"
  by (auto simp: square_sp_def split: if_splits)

lemma square_sp_members:
  "square_sp s t = Found p \<Longrightarrow> s \<in> set p \<and> t \<in> set p"
  by (auto simp: square_sp_def split: if_splits)

lemma join_legs:
  assumes "xs \<noteq> []" "ys \<noteq> []" "last xs = hd ys"
  shows "xs @ drop 1 ys = butlast xs @ ys"
proof -
  from assms(1) obtain xs' x where xs: "xs = xs' @ [x]" by (cases xs rule: rev_cases) auto
  from assms(2) obtain y ys' where ys: "ys = y # ys'" by (cases ys) auto
  from assms(3) xs ys have "x = y" by simp
  with xs ys show ?thesis by simp
qed

lemma full_path_merge:
  assumes "path1 \<noteq> []" "path2 \<noteq> []" "path3 \<noteq> []"
      and "last path1 = hd path2" "last path2 = hd path3"
  shows "full_path path1 path2 path3 = butlast path1 @ butlast path2 @ path3"
proof -
  have a: "path1 @ drop 1 path2 = butlast path1 @ path2"
    using assms(1,2,4) by (rule join_legs)
  have b: "path2 @ drop 1 path3 = butlast path2 @ path3"
    using assms(2,3,5) by (rule join_legs)
  have "full_path path1 path2 path3 = (path1 @ drop 1 path2) @ drop 1 path3"
    by (simp add: full_path_def)
  also have "\<dots> = butlast path1 @ (path2 @ drop 1 path3)"
    by (simp only: a append_assoc)
  also have "\<dots> = butlast path1 @ butlast path2 @ path3"
    by (simp only: b)
  finally show ?thesis .
qed

lemma full_path_ends:
  assumes "path1 \<noteq> []" "path2 \<noteq> []" "path3 \<noteq> []"
      and "hd path1 = s" "last path1 = hd path2" "last path2 = hd path3" "last path3 = s"
  shows "hd (full_path path1 path2 path3) = s \<and> last (full_path path1 path2 path3) = s"
proof -
  have "hd (full_path path1 path2 path3) = s"
    using assms(1,4) by (simp add: full_path_def)
  moreover have "last (full_path path1 path2 path3) = last path3"
    using assms(3) by (simp add: full_path_merge[OF assms(1,2,3,5,6)])
  ultimately show ?thesis using assms(7) by simp
qed

lemma full_path_length:
  assumes "path2 \<noteq> []" "path3 \<noteq> []"
  shows "length (full_path path1 path2 path3)
           = length path1 + length path2 + length path3 - 2"
  using assms by (cases path2; cases path3) (simp_all add: full_path_def)

text \<open>
  C6. When every leg the oracle returns starts at its source and ends at its target, the
  path built from the three legs is their concatenation with each junction node kept
  once (the last node of a leg is the first node of the next, and the next leg enters
  without it), it has two nodes fewer than the legs together, and it starts and ends at
  the start node. Every path in the returned list is such a concatenation.
\<close>

theorem full_path_joins_legs:
  assumes sp_ok: "\<forall>s t p. shortest_path G s t = Found p \<longrightarrow> p \<noteq> [] \<and> hd p = s \<and> last p = t"
  shows "(shortest_path G start_node node1 = Found path1 \<and>
          shortest_path G node1 node2 = Found path2 \<and>
          shortest_path G node2 start_node = Found path3 \<longrightarrow>
            full_path path1 path2 path3 = butlast path1 @ butlast path2 @ path3 \<and>
            full_path path1 path2 path3 = path1 @ tl path2 @ tl path3 \<and>
            length (full_path path1 path2 path3)
              = length path1 + length path2 + length path3 - 2 \<and>
            hd (full_path path1 path2 path3) = start_node \<and>
            last (full_path path1 path2 path3) = start_node) \<and>
         (find_loops fl G geodesic rng start_node target num_attempts tolerance max_percentage
            = Inr ls \<and> (path, d) \<in> set ls \<longrightarrow>
            (\<exists>n1 n2 p1 p2 p3.
                shortest_path G start_node n1 = Found p1 \<and>
                shortest_path G n1 n2 = Found p2 \<and>
                shortest_path G n2 start_node = Found p3 \<and>
                path = full_path p1 p2 p3) \<and>
            hd path = start_node \<and> last path = start_node)"
proof (intro conjI impI)
  assume legs: "shortest_path G start_node node1 = Found path1 \<and>
          shortest_path G node1 node2 = Found path2 \<and>
          shortest_path G node2 start_node = Found path3"
  with sp_ok have ne: "path1 \<noteq> []" "path2 \<noteq> []" "path3 \<noteq> []"
    and ends: "hd path1 = start_node" "last path1 = hd path2" "last path2 = hd path3"
              "last path3 = start_node"
    by auto
  show "full_path path1 path2 path3 = butlast path1 @ butlast path2 @ path3"
    using ne ends(2,3) by (rule full_path_merge)
  show "full_path path1 path2 path3 = path1 @ tl path2 @ tl path3"
    by (simp add: full_path_def drop_Suc)
  show "length (full_path path1 path2 path3) = length path1 + length path2 + length path3 - 2"
    using ne(2,3) by (rule full_path_length)
  from full_path_ends[OF ne ends]
  show "hd (full_path path1 path2 path3) = start_node"
    and "last (full_path path1 path2 path3) = start_node" by simp_all
next
  assume run: "find_loops fl G geodesic rng start_node target num_attempts tolerance max_percentage
            = Inr ls \<and> (path, d) \<in> set ls"
  then have r1: "find_loops fl G geodesic rng start_node target num_attempts tolerance
      max_percentage = Inr ls" and r2: "(path, d) \<in> set ls" by simp_all
  from find_loops_origin[OF r1 r2] obtain pr where
    "built_from fl G geodesic start_node target tolerance max_percentage pr (path, d)"
    by blast
  then obtain p1 p2 p3 where
    legs: "shortest_path G start_node (fst pr) = Found p1"
          "shortest_path G (fst pr) (snd pr) = Found p2"
          "shortest_path G (snd pr) start_node = Found p3"
    and path: "path = full_path p1 p2 p3"
    by (auto simp: built_from_def)
  from legs path
  show "\<exists>n1 n2 p1 p2 p3.
                shortest_path G start_node n1 = Found p1 \<and>
                shortest_path G n1 n2 = Found p2 \<and>
                shortest_path G n2 start_node = Found p3 \<and>
                path = full_path p1 p2 p3" by blast
  from legs sp_ok have ne: "p1 \<noteq> []" "p2 \<noteq> []" "p3 \<noteq> []"
    and ends: "hd p1 = start_node" "last p1 = hd p2" "last p2 = hd p3" "last p3 = start_node"
    by auto
  from full_path_ends[OF ne ends] path
  show "hd path = start_node" and "last path = start_node" by simp_all
qed

theorem full_path_joins_legs_witness:
  "full_path [1, 2] [2, 3] [3, 4, 1] = butlast [1, 2] @ butlast [2, 3] @ [3, 4, 1::int] \<and>
   full_path [1, 2] [2, 3] [3, 4, 1] = [1, 2, 3, 4, 1::int] \<and>
   length (full_path [1, 2] [2, 3] [3, 4, 1::int]) = 2 + 2 + 3 - 2 \<and>
   hd (full_path [1, 2] [2, 3] [3, 4, 1::int]) = 1 \<and>
   last (full_path [1, 2] [2, 3] [3, 4, 1::int]) = 1 \<and>
   find_loops round_double square_graph taxicab alternating 1 4 2 (1 / 8) (1 / 2)
     = Inr [([1, 2, 3, 4, 1], 4)] \<and>
   hd [1, 2, 3, 4, 1::int] = 1 \<and> last [1, 2, 3, 4, 1::int] = 1"
proof -
  have sp_ok: "\<forall>s t p. shortest_path square_graph s t = Found p
                  \<longrightarrow> p \<noteq> [] \<and> hd p = s \<and> last p = t"
    using square_sp_ends by (simp add: square_graph_def)
  have legs: "shortest_path square_graph 1 2 = Found [1, 2]"
             "shortest_path square_graph 2 3 = Found [2, 3]"
             "shortest_path square_graph 3 1 = Found [3, 4, 1]"
    by (simp_all add: square_graph_def square_sp_def)
  from full_path_joins_legs[OF sp_ok, of 1 2 "[1, 2]" 3 "[2, 3]" "[3, 4, 1]"
      round_double taxicab alternating 4 2 "1 / 8" "1 / 2" "[([1, 2, 3, 4, 1], 4)]"
      "[1, 2, 3, 4, 1]" 4]
    legs square_run
  show ?thesis by simp
qed

section \<open>Degenerate pairs\<close>

lemma degenerate_aligned:
  assumes sp_ok: "\<forall>s t p. shortest_path G s t = Found p \<longrightarrow> s \<in> set p \<and> t \<in> set p"
      and deg: "node1 = node2 \<or> node1 = start_node \<or> node2 = start_node"
      and legs: "shortest_path G start_node node1 = Found path1"
                "shortest_path G node2 start_node = Found path3"
  shows "node1 \<in> set path3 \<or> node2 \<in> set path1"
  using sp_ok deg legs by blast

text \<open>
  C10. When every path the oracle returns contains its source and its target, a drawn
  pair with \<open>node1 = node2\<close>, \<open>node1 = start_node\<close> or \<open>node2 = start_node\<close> fails the
  alignment check (\<open>node1\<close> lies on the third leg or \<open>node2\<close> on the first), the attempt
  appends nothing, and every loop of the returned list was built from a drawn pair that
  is not degenerate.
\<close>

theorem degenerate_pair_rejected:
  assumes sp_ok: "\<forall>s t p. shortest_path G s t = Found p \<longrightarrow> s \<in> set p \<and> t \<in> set p"
  shows "(node1 = node2 \<or> node1 = start_node \<or> node2 = start_node \<longrightarrow>
            (shortest_path G start_node node1 = Found path1 \<and>
             shortest_path G node2 start_node = Found path3 \<longrightarrow>
               node1 \<in> set path3 \<or> node2 \<in> set path1) \<and>
            (try_pair fl G geodesic start_node target tolerance max_percentage (node1, node2) st
               = Inr st' \<longrightarrow> loops st' = loops st)) \<and>
         (find_loops fl G geodesic rng start_node target num_attempts tolerance max_percentage
            = Inr ls \<and> l \<in> set ls \<longrightarrow>
            (\<exists>k n1 n2. k < nat num_attempts \<and>
               random_choice2 (nodes G) (rng k) = Inr (n1, n2) \<and>
               built_from fl G geodesic start_node target tolerance max_percentage (n1, n2) l \<and>
               n1 \<noteq> n2 \<and> n1 \<noteq> start_node \<and> n2 \<noteq> start_node))"
proof (intro conjI impI)
  assume deg: "node1 = node2 \<or> node1 = start_node \<or> node2 = start_node"
    and "shortest_path G start_node node1 = Found path1 \<and>
         shortest_path G node2 start_node = Found path3"
  then show "node1 \<in> set path3 \<or> node2 \<in> set path1"
    using degenerate_aligned[OF sp_ok deg] by blast
next
  assume deg: "node1 = node2 \<or> node1 = start_node \<or> node2 = start_node"
    and run: "try_pair fl G geodesic start_node target tolerance max_percentage (node1, node2) st
               = Inr st'"
  from try_pair_loops[OF run] show "loops st' = loops st"
  proof
    assume "\<exists>l. loops st' = loops st @ [l] \<and> (node1, node2) \<notin> random_nodes st \<and>
              built_from fl G geodesic start_node target tolerance max_percentage (node1, node2) l"
    then obtain p1 p3 where
      "shortest_path G start_node node1 = Found p1" "shortest_path G node2 start_node = Found p3"
      "node1 \<notin> set p3" "node2 \<notin> set p1"
      by (auto simp: built_from_def)
    with degenerate_aligned[OF sp_ok deg] show ?thesis by blast
  qed
next
  assume "find_loops fl G geodesic rng start_node target num_attempts tolerance max_percentage
            = Inr ls \<and> l \<in> set ls"
  then have r1: "find_loops fl G geodesic rng start_node target num_attempts tolerance
      max_percentage = Inr ls" and r2: "l \<in> set ls" by simp_all
  from find_loops_origin[OF r1 r2] obtain k pr where
    k: "k < nat num_attempts" and pr: "random_choice2 (nodes G) (rng k) = Inr pr" and
    b: "built_from fl G geodesic start_node target tolerance max_percentage pr l"
    by blast
  from b obtain p1 p3 where
    legs: "shortest_path G start_node (fst pr) = Found p1"
          "shortest_path G (snd pr) start_node = Found p3"
    and nin: "fst pr \<notin> set p3" "snd pr \<notin> set p1"
    by (auto simp: built_from_def)
  have "\<not> (fst pr = snd pr \<or> fst pr = start_node \<or> snd pr = start_node)"
    using degenerate_aligned[OF sp_ok _ legs] nin by blast
  with k pr b have "k < nat num_attempts \<and>
      random_choice2 (nodes G) (rng k) = Inr (fst pr, snd pr) \<and>
      built_from fl G geodesic start_node target tolerance max_percentage (fst pr, snd pr) l \<and>
      fst pr \<noteq> snd pr \<and> fst pr \<noteq> start_node \<and> snd pr \<noteq> start_node"
    by simp
  then show "\<exists>k n1 n2. k < nat num_attempts \<and>
               random_choice2 (nodes G) (rng k) = Inr (n1, n2) \<and>
               built_from fl G geodesic start_node target tolerance max_percentage (n1, n2) l \<and>
               n1 \<noteq> n2 \<and> n1 \<noteq> start_node \<and> n2 \<noteq> start_node"
    by blast
qed

lemma square_sp_ok_members:
  "\<forall>s t p. shortest_path square_graph s t = Found p \<longrightarrow> s \<in> set p \<and> t \<in> set p"
  using square_sp_members by (simp add: square_graph_def)

theorem degenerate_pair_rejected_witness:
  "loops (\<lparr>random_nodes = {(3, 3)}, loops = []\<rparr> :: int search_state) = [] \<and>
   try_pair round_double square_graph taxicab 1 4 (1 / 8) (1 / 2) (3, 3) initial_state
     = Inr \<lparr>random_nodes = {(3, 3)}, loops = []\<rparr> \<and>
   ((3::int) \<in> set [3, 4, 1] \<or> (3::int) \<in> set [1, 2, 3]) \<and>
   (\<exists>k n1 n2. k < nat 2 \<and>
      random_choice2 (nodes square_graph) (alternating k) = Inr (n1, n2) \<and>
      built_from round_double square_graph taxicab 1 4 (1 / 8) (1 / 2) (n1, n2) ([1, 2, 3, 4, 1], 4) \<and>
      n1 \<noteq> n2 \<and> n1 \<noteq> 1 \<and> n2 \<noteq> 1)"
proof -
  have t: "try_pair round_double square_graph taxicab 1 4 (1 / 8) (1 / 2) (3, 3) initial_state
     = Inr \<lparr>random_nodes = {(3, 3)}, loops = []\<rparr>"
    by (simp add: run_simps)
  have legs: "shortest_path square_graph 1 3 = Found [1, 2, 3]"
             "shortest_path square_graph 3 1 = Found [3, 4, 1]"
    by (simp_all add: square_graph_def square_sp_def)
  from degenerate_pair_rejected[OF square_sp_ok_members, of 3 3 1 "[1, 2, 3]" "[3, 4, 1]"
      round_double taxicab 4 "1 / 8" "1 / 2" initial_state
      "\<lparr>random_nodes = {(3, 3)}, loops = []\<rparr>"
      alternating 2 "[([1, 2, 3, 4, 1], 4)]" "([1, 2, 3, 4, 1], 4)"]
    t legs square_run
  show ?thesis by (simp add: initial_state_def)
qed

section \<open>Attempted pairs\<close>

lemma try_pair_random_nodes:
  assumes "try_pair fl G geodesic s tg tol mp pr st = Inr st'"
  shows "random_nodes st \<subseteq> random_nodes st' \<and> pr \<in> random_nodes st' \<and>
         (sym (random_nodes st) \<longrightarrow> sym (random_nodes st'))"
  using assms
  by (auto simp: try_pair_def Let_def sym_def
           split: if_splits sp_result.splits sum.splits)

lemma run_attempts_random_nodes:
  assumes "run_attempts fl G geodesic rng s tg tol mp ks st = Inr st'"
  shows "random_nodes st \<subseteq> random_nodes st' \<and>
         (sym (random_nodes st) \<longrightarrow> sym (random_nodes st')) \<and>
         (\<forall>k pr. k \<in> set ks \<and> random_choice2 (nodes G) (rng k) = Inr pr
                   \<longrightarrow> pr \<in> random_nodes st')"
  using assms
proof (induction ks arbitrary: st)
  case Nil
  then show ?case by simp
next
  case (Cons k ks)
  from Cons.prems obtain pr st1 where
    pr: "random_choice2 (nodes G) (rng k) = Inr pr" and
    st1: "try_pair fl G geodesic s tg tol mp pr st = Inr st1" and
    rest: "run_attempts fl G geodesic rng s tg tol mp ks st1 = Inr st'"
    by (auto split: sum.splits)
  note a = try_pair_random_nodes[OF st1] and b = Cons.IH[OF rest]
  have "random_nodes st \<subseteq> random_nodes st'" using a b by blast
  moreover have "sym (random_nodes st) \<longrightarrow> sym (random_nodes st')" using a b by blast
  moreover have "\<forall>k' pr'. k' \<in> set (k # ks) \<and> random_choice2 (nodes G) (rng k') = Inr pr'
                   \<longrightarrow> pr' \<in> random_nodes st'"
    using a b pr by auto
  ultimately show ?case by blast
qed

lemma run_attempts_append:
  "run_attempts fl G geodesic rng s tg tol mp (xs @ ys) st =
     (case run_attempts fl G geodesic rng s tg tol mp xs st of
        Inl e \<Rightarrow> Inl e
      | Inr st' \<Rightarrow> run_attempts fl G geodesic rng s tg tol mp ys st')"
  by (induction xs arbitrary: st) (auto split: sum.splits)

text \<open>
  C4. In the state that attempt \<open>j\<close> finds, \<open>random_nodes\<close> is symmetric and holds the
  pair drawn by every earlier attempt \<open>i < j\<close> in both orientations. An attempt that
  draws that pair again, in either orientation, stops at the skip check: it returns the
  state unchanged, without an error.
\<close>

theorem attempted_pair_never_retried:
  assumes before: "run_attempts fl G geodesic rng start_node target tolerance max_percentage
                     [0..<j] initial_state = Inr st"
      and earlier: "i < j"
      and drawn: "random_choice2 (nodes G) (rng i) = Inr (a, b)"
  shows "sym (random_nodes st) \<and> (a, b) \<in> random_nodes st \<and> (b, a) \<in> random_nodes st \<and>
         try_pair fl G geodesic start_node target tolerance max_percentage (a, b) st = Inr st \<and>
         try_pair fl G geodesic start_node target tolerance max_percentage (b, a) st = Inr st \<and>
         (random_choice2 (nodes G) (rng j) = Inr (a, b) \<or>
          random_choice2 (nodes G) (rng j) = Inr (b, a) \<longrightarrow>
            run_attempts fl G geodesic rng start_node target tolerance max_percentage
              [0..<Suc j] initial_state = Inr st)"
proof -
  note r = run_attempts_random_nodes[OF before]
  have s: "sym (random_nodes st)"
    using r by (simp add: initial_state_def sym_def)
  have ab: "(a, b) \<in> random_nodes st"
    using r earlier drawn by auto
  with s have ba: "(b, a) \<in> random_nodes st"
    by (auto simp: sym_def)
  have t1: "try_pair fl G geodesic start_node target tolerance max_percentage (a, b) st = Inr st"
    using ab by (simp add: try_pair_def)
  have t2: "try_pair fl G geodesic start_node target tolerance max_percentage (b, a) st = Inr st"
    using ba by (simp add: try_pair_def)
  have "run_attempts fl G geodesic rng start_node target tolerance max_percentage
              [0..<Suc j] initial_state = Inr st"
    if "random_choice2 (nodes G) (rng j) = Inr (a, b) \<or>
          random_choice2 (nodes G) (rng j) = Inr (b, a)"
    using that before t1 t2 by (auto simp: run_attempts_append)
  with s ab ba t1 t2 show ?thesis by blast
qed

theorem attempted_pair_never_retried_witness:
  "sym {(3, 2), (2, 3::int)} \<and>
   try_pair round_double square_graph taxicab 1 4 (1 / 8) (1 / 2) (3, 2)
       \<lparr>random_nodes = {(3, 2), (2, 3)}, loops = [([1, 2, 3, 4, 1], 4)]\<rparr>
     = Inr \<lparr>random_nodes = {(3, 2), (2, 3)}, loops = [([1, 2, 3, 4, 1], 4)]\<rparr> \<and>
   run_attempts round_double square_graph taxicab alternating 1 4 (1 / 8) (1 / 2) [0..<Suc 1] initial_state
     = Inr \<lparr>random_nodes = {(3, 2), (2, 3)}, loops = [([1, 2, 3, 4, 1], 4)]\<rparr>"
proof -
  have before: "run_attempts round_double square_graph taxicab alternating 1 4 (1 / 8) (1 / 2)
                  [0..<1] initial_state
                = Inr \<lparr>random_nodes = {(3, 2), (2, 3)}, loops = [([1, 2, 3, 4, 1], 4)]\<rparr>"
    by (simp add: run_simps)
  have d0: "random_choice2 (nodes square_graph) (alternating 0) = Inr (2, 3)"
    by (simp add: random_choice2_def square_graph_def alternating_def)
  have d1: "random_choice2 (nodes square_graph) (alternating 1) = Inr (3, 2)"
    by (simp add: random_choice2_def square_graph_def alternating_def)
  from attempted_pair_never_retried[OF before _ d0] d1
  show ?thesis by simp
qed

section \<open>Facts about the square graph\<close>

lemma square_sp_in_graph:
  assumes "u \<in> set (nodes square_graph)" "v \<in> set (nodes square_graph)"
  shows "shortest_path square_graph u v \<noteq> NotInGraph"
proof -
  have r: "1 \<le> u \<and> u \<le> 5 \<and> 1 \<le> v \<and> v \<le> 5"
    using assms by (auto simp: square_graph_def)
  have c: "(case x of Some p \<Rightarrow> Found p | None \<Rightarrow> NoPath) \<noteq> NotInGraph"
    for x :: "int list option"
    by (simp split: option.split)
  from r have "\<not> (u < 1 \<or> 5 < u \<or> v < 1 \<or> 5 < v)" by simp
  then show ?thesis
    unfolding square_graph_def square_sp_def
    by (simp add: c del: map_of.simps)
qed

lemma square_dom: "dom (coords square_graph) = {1, 2, 3, 4, 5}"
  by (simp add: square_graph_def dom_map_of_conv_image_fst insert_commute)

lemma square_sp_range:
  "square_sp u v = Found p \<Longrightarrow> set p \<subseteq> {1, 2, 3, 4, 5}"
  by (auto simp: square_sp_def split: if_splits)

lemma square_sp_located:
  "shortest_path square_graph u v = Found p \<Longrightarrow> set p \<subseteq> dom (coords square_graph)"
  using square_sp_range[of u v p] by (simp add: square_dom) (simp add: square_graph_def)

section \<open>The drawn pair\<close>

lemma random_choice2_uniform:
  assumes "distinct xs" "a \<in> set xs" "b \<in> set xs"
  shows "card {r \<in> {..<length xs} \<times> {..<length xs}. random_choice2 xs r = Inr (a, b)} = 1"
proof -
  from assms(2) obtain i where i: "i < length xs" "xs ! i = a"
    by (auto simp: in_set_conv_nth)
  from assms(3) obtain j where j: "j < length xs" "xs ! j = b"
    by (auto simp: in_set_conv_nth)
  from i have ne: "xs \<noteq> []" by auto
  have "{r \<in> {..<length xs} \<times> {..<length xs}. random_choice2 xs r = Inr (a, b)} = {(i, j)}"
  proof (intro set_eqI iffI)
    fix r assume "r \<in> {r \<in> {..<length xs} \<times> {..<length xs}. random_choice2 xs r = Inr (a, b)}"
    then have r: "fst r < length xs" "snd r < length xs"
      and eq: "xs ! fst r = a" "xs ! snd r = b"
      using ne by (auto simp: random_choice2_def)
    from nth_eq_iff_index_eq[OF assms(1) r(1) i(1)] eq(1) i(2) have "fst r = i" by simp
    moreover from nth_eq_iff_index_eq[OF assms(1) r(2) j(1)] eq(2) j(2) have "snd r = j"
      by simp
    ultimately show "r \<in> {(i, j)}" by (cases r) simp
  next
    fix r assume "r \<in> {(i, j)}"
    then show "r \<in> {r \<in> {..<length xs} \<times> {..<length xs}. random_choice2 xs r = Inr (a, b)}"
      using i j ne by (simp add: random_choice2_def)
  qed
  then show ?thesis by simp
qed

lemma run_attempts_draws:
  assumes run: "run_attempts fl G geodesic rng s tg tol mp ks st = Inr st'"
      and k: "k \<in> set ks"
  shows "\<exists>a b. random_choice2 (nodes G) (rng k) = Inr (a, b) \<and>
               a \<in> set (nodes G) \<and> b \<in> set (nodes G) \<and> (a, b) \<in> random_nodes st'"
proof -
  from k obtain k0 ks' where ks: "ks = k0 # ks'" by (cases ks) auto
  have "run_attempts fl G geodesic rng s tg tol mp (k0 # ks') st = Inl ValueError"
    if "nodes G = []"
    using that by (simp add: random_choice2_def)
  with run ks have ne: "nodes G \<noteq> []" by auto
  define a where "a = nodes G ! (fst (rng k) mod length (nodes G))"
  define b where "b = nodes G ! (snd (rng k) mod length (nodes G))"
  from ne have d: "random_choice2 (nodes G) (rng k) = Inr (a, b)"
    by (simp add: random_choice2_def a_def b_def)
  from ne have m: "a \<in> set (nodes G)" "b \<in> set (nodes G)"
    by (simp_all add: a_def b_def)
  from run_attempts_random_nodes[OF run] k d have "(a, b) \<in> random_nodes st'" by blast
  with d m show ?thesis by blast
qed

text \<open>
  C2 (as amended). In every attempt of \<open>find_loops\<close> the two waypoint node ids are drawn
  from the graph's node set, and the attempt records the pair it drew. Each is drawn
  uniformly: of the pairs of positions the draw can return, exactly one gives any
  ordered pair of nodes, a node paired with itself included. The two ids are not
  necessarily distinct.
\<close>

theorem drawn_pair_members:
  "(find_loops fl G geodesic rng start_node target num_attempts tolerance max_percentage
      = Inr ls \<and> k < nat num_attempts \<longrightarrow>
      (\<exists>st node1 node2.
         run_attempts fl G geodesic rng start_node target tolerance max_percentage
           [0..<nat num_attempts] initial_state = Inr st \<and>
         ls = loops st \<and>
         random_choice2 (nodes G) (rng k) = Inr (node1, node2) \<and>
         node1 \<in> set (nodes G) \<and> node2 \<in> set (nodes G) \<and>
         (node1, node2) \<in> random_nodes st)) \<and>
   (distinct (nodes G) \<and> a \<in> set (nodes G) \<and> b \<in> set (nodes G) \<longrightarrow>
      card {r \<in> {..<length (nodes G)} \<times> {..<length (nodes G)}.
              random_choice2 (nodes G) r = Inr (a, b)} = 1)"
proof (intro conjI impI)
  assume h: "find_loops fl G geodesic rng start_node target num_attempts tolerance
      max_percentage = Inr ls \<and> k < nat num_attempts"
  then obtain st where
    run: "run_attempts fl G geodesic rng start_node target tolerance max_percentage
       [0..<nat num_attempts] initial_state = Inr st" and ls: "ls = loops st"
    by (auto simp: find_loops_def split: sum.splits)
  from h have k: "k \<in> set [0..<nat num_attempts]" by simp
  from run_attempts_draws[OF run k] obtain node1 node2 where
    "random_choice2 (nodes G) (rng k) = Inr (node1, node2)"
    "node1 \<in> set (nodes G)" "node2 \<in> set (nodes G)" "(node1, node2) \<in> random_nodes st"
    by blast
  with run ls
  show "\<exists>st node1 node2.
         run_attempts fl G geodesic rng start_node target tolerance max_percentage
           [0..<nat num_attempts] initial_state = Inr st \<and>
         ls = loops st \<and>
         random_choice2 (nodes G) (rng k) = Inr (node1, node2) \<and>
         node1 \<in> set (nodes G) \<and> node2 \<in> set (nodes G) \<and>
         (node1, node2) \<in> random_nodes st"
    by blast
next
  assume "distinct (nodes G) \<and> a \<in> set (nodes G) \<and> b \<in> set (nodes G)"
  then have "distinct (nodes G)" "a \<in> set (nodes G)" "b \<in> set (nodes G)" by simp_all
  then show "card {r \<in> {..<length (nodes G)} \<times> {..<length (nodes G)}.
              random_choice2 (nodes G) r = Inr (a, b)} = 1"
    by (rule random_choice2_uniform)
qed

theorem drawn_pair_members_witness:
  "(\<exists>st node1 node2.
      run_attempts round_double square_graph taxicab alternating 1 4 (1 / 8) (1 / 2)
        [0..<nat 2] initial_state = Inr st \<and>
      [([1, 2, 3, 4, 1], 4)] = loops st \<and>
      random_choice2 (nodes square_graph) (alternating 1) = Inr (node1, node2) \<and>
      node1 \<in> set (nodes square_graph) \<and> node2 \<in> set (nodes square_graph) \<and>
      (node1, node2) \<in> random_nodes st) \<and>
   card {r \<in> {..<length (nodes square_graph)} \<times> {..<length (nodes square_graph)}.
           random_choice2 (nodes square_graph) r = Inr (3, 3)} = 1"
proof -
  have k: "(1::nat) < nat 2" by simp
  have dn: "distinct (nodes square_graph) \<and> 3 \<in> set (nodes square_graph) \<and>
            3 \<in> set (nodes square_graph)"
    by (simp add: square_graph_def)
  note th = drawn_pair_members[where fl = round_double and G = square_graph
      and geodesic = taxicab and rng = alternating and start_node = 1 and target = 4
      and tolerance = "1 / 8" and max_percentage = "1 / 2" and num_attempts = 2 and k = 1
      and a = 3 and b = 3 and ls = "[([1, 2, 3, 4, 1], 4)]"]
  note A = th[THEN conjunct1, THEN mp, OF conjI[OF square_run k]]
  note B = th[THEN conjunct2, THEN mp, OF dn]
  from A B show ?thesis by (rule conjI)
qed

text \<open>
  C2 as stated (the two ids of an attempt are distinct) fails: on the square graph the
  source \<open>repeating\<close> makes the first attempt draw node 3 twice, and the attempt goes on
  with that pair and records it.
\<close>

theorem drawn_pair_distinct_counterexample:
  "random_choice2 (nodes square_graph) (repeating 0) = Inr (3, 3) \<and>
   run_attempts round_double square_graph taxicab repeating 1 4 (1 / 8) (1 / 2) [0..<1]
       initial_state
     = Inr \<lparr>random_nodes = {(3, 3)}, loops = []\<rparr>"
  by (simp add: run_simps repeating_def)

section \<open>Configuration\<close>

lemma path_length_km_total:
  "set path \<subseteq> dom (coords G) \<Longrightarrow> \<exists>d. path_length_km fl G geodesic path = Inr d"
  by (simp add: path_length_km_def path_length_acc_fold)

lemma set_full_path:
  "set (full_path path1 path2 path3) \<subseteq> set path1 \<union> set path2 \<union> set path3"
  using set_drop_subset[of 1 path2] set_drop_subset[of 1 path3]
  by (auto simp: full_path_def)

lemma try_pair_total:
  assumes start: "s \<in> set (nodes G)"
      and found: "\<forall>u v. u \<in> set (nodes G) \<and> v \<in> set (nodes G)
                    \<longrightarrow> shortest_path G u v \<noteq> NotInGraph"
      and located: "\<forall>u v p. shortest_path G u v = Found p \<longrightarrow> set p \<subseteq> dom (coords G)"
      and pr: "fst pr \<in> set (nodes G)" "snd pr \<in> set (nodes G)"
  shows "\<exists>st'. try_pair fl G geodesic s tg tol mp pr st = Inr st'"
proof -
  have len: "\<exists>d. path_length_km fl G geodesic (full_path p1 p2 p3) = Inr d"
    if "shortest_path G s (fst pr) = Found p1" "shortest_path G (fst pr) (snd pr) = Found p2"
       "shortest_path G (snd pr) s = Found p3" for p1 p2 p3
  proof (rule path_length_km_total)
    from that located have "set p1 \<union> set p2 \<union> set p3 \<subseteq> dom (coords G)" by blast
    with set_full_path[of p1 p2 p3] show "set (full_path p1 p2 p3) \<subseteq> dom (coords G)"
      by blast
  qed
  have n1: "shortest_path G s (fst pr) \<noteq> NotInGraph"
    and n2: "shortest_path G (fst pr) (snd pr) \<noteq> NotInGraph"
    and n3: "shortest_path G (snd pr) s \<noteq> NotInGraph"
    using start found pr by blast+
  show ?thesis
  proof (cases "shortest_path G s (fst pr)")
    case (Found p1)
    show ?thesis
    proof (cases "shortest_path G (fst pr) (snd pr)")
      case p2: (Found p2)
      show ?thesis
      proof (cases "shortest_path G (snd pr) s")
        case p3: (Found p3)
        from len[OF Found p2 p3] obtain d where
          "path_length_km fl G geodesic (full_path p1 p2 p3) = Inr d" by blast
        with Found p2 p3 show ?thesis by (simp add: try_pair_def Let_def)
      next
        case NoPath
        with Found p2 show ?thesis by (simp add: try_pair_def Let_def)
      next
        case NotInGraph
        with n3 show ?thesis by simp
      qed
    next
      case NoPath
      with Found show ?thesis by (simp add: try_pair_def Let_def)
    next
      case NotInGraph
      with n2 show ?thesis by simp
    qed
  next
    case NoPath
    then show ?thesis by (simp add: try_pair_def Let_def)
  next
    case NotInGraph
    with n1 show ?thesis by simp
  qed
qed

lemma run_attempts_total:
  assumes start: "s \<in> set (nodes G)"
      and found: "\<forall>u v. u \<in> set (nodes G) \<and> v \<in> set (nodes G)
                    \<longrightarrow> shortest_path G u v \<noteq> NotInGraph"
      and located: "\<forall>u v p. shortest_path G u v = Found p \<longrightarrow> set p \<subseteq> dom (coords G)"
  shows "\<exists>st'. run_attempts fl G geodesic rng s tg tol mp ks st = Inr st'"
proof (induction ks arbitrary: st)
  case Nil
  then show ?case by simp
next
  case (Cons k ks)
  from start have ne: "nodes G \<noteq> []" by auto
  then obtain pr where pr: "random_choice2 (nodes G) (rng k) = Inr pr"
    and mem: "fst pr \<in> set (nodes G)" "snd pr \<in> set (nodes G)"
    by (simp add: random_choice2_def)
  from try_pair_total[OF start found located mem] obtain st1 where
    "try_pair fl G geodesic s tg tol mp pr st = Inr st1" by blast
  with pr Cons.IH[of st1] show ?case by simp
qed

text \<open>
  C3 (as amended). \<open>find_loops\<close> checks no configuration value and does not fail on
  one. With an attempt budget of zero or less it returns the empty list. With a
  positive budget it starts to sample whatever the tolerance and the duplicate
  threshold are: the first draw is made, so that an empty node set raises the error of
  the draw, and the oracle is asked, so that its error for an unknown node comes out.
  When the collaborators do not raise (the start node is a node of the graph, the
  oracle knows every node of the graph, and every node on an oracle path has
  coordinates), every attempt draws its pair and records it, and the list of loops is
  returned.
\<close>

theorem find_loops_no_configuration_check:
  "(num_attempts \<le> 0 \<longrightarrow>
      find_loops fl G geodesic rng start_node target num_attempts tolerance max_percentage
        = Inr []) \<and>
   (0 < num_attempts \<and> nodes G = [] \<longrightarrow>
      find_loops fl G geodesic rng start_node target num_attempts tolerance max_percentage
        = Inl ValueError) \<and>
   (0 < num_attempts \<and> random_choice2 (nodes G) (rng 0) = Inr (node1, node2) \<and>
    shortest_path G start_node node1 = NotInGraph \<longrightarrow>
      find_loops fl G geodesic rng start_node target num_attempts tolerance max_percentage
        = Inl NodeNotFound) \<and>
   (start_node \<in> set (nodes G) \<and>
    (\<forall>u v. u \<in> set (nodes G) \<and> v \<in> set (nodes G) \<longrightarrow> shortest_path G u v \<noteq> NotInGraph) \<and>
    (\<forall>u v p. shortest_path G u v = Found p \<longrightarrow> set p \<subseteq> dom (coords G)) \<longrightarrow>
      (\<exists>st. run_attempts fl G geodesic rng start_node target tolerance max_percentage
               [0..<nat num_attempts] initial_state = Inr st \<and>
            find_loops fl G geodesic rng start_node target num_attempts tolerance
               max_percentage = Inr (loops st) \<and>
            (\<forall>k<nat num_attempts.
               \<exists>pr. random_choice2 (nodes G) (rng k) = Inr pr \<and> pr \<in> random_nodes st)))"
proof (intro conjI impI)
  assume "num_attempts \<le> 0"
  then show "find_loops fl G geodesic rng start_node target num_attempts tolerance
        max_percentage = Inr []"
    by (simp add: find_loops_def initial_state_def)
next
  assume "0 < num_attempts \<and> nodes G = []"
  then have "[0..<nat num_attempts] = 0 # [1..<nat num_attempts]" and "nodes G = []"
    by (simp_all add: upt_conv_Cons)
  then show "find_loops fl G geodesic rng start_node target num_attempts tolerance
        max_percentage = Inl ValueError"
    by (simp add: find_loops_def random_choice2_def)
next
  assume a: "0 < num_attempts \<and> random_choice2 (nodes G) (rng 0) = Inr (node1, node2) \<and>
    shortest_path G start_node node1 = NotInGraph"
  then have "[0..<nat num_attempts] = 0 # [1..<nat num_attempts]"
    by (simp add: upt_conv_Cons)
  with a show "find_loops fl G geodesic rng start_node target num_attempts tolerance
        max_percentage = Inl NodeNotFound"
    by (simp add: find_loops_def try_pair_def initial_state_def)
next
  assume h: "start_node \<in> set (nodes G) \<and>
    (\<forall>u v. u \<in> set (nodes G) \<and> v \<in> set (nodes G) \<longrightarrow> shortest_path G u v \<noteq> NotInGraph) \<and>
    (\<forall>u v p. shortest_path G u v = Found p \<longrightarrow> set p \<subseteq> dom (coords G))"
  then have "\<exists>st'. run_attempts fl G geodesic rng start_node target tolerance max_percentage
                 [0..<nat num_attempts] initial_state = Inr st'"
    by (intro run_attempts_total) simp_all
  then obtain st where run: "run_attempts fl G geodesic rng start_node target tolerance
      max_percentage [0..<nat num_attempts] initial_state = Inr st" by blast
  have "\<exists>pr. random_choice2 (nodes G) (rng k) = Inr pr \<and> pr \<in> random_nodes st"
    if "k < nat num_attempts" for k
  proof -
    from that have "k \<in> set [0..<nat num_attempts]" by simp
    from run_attempts_draws[OF run this] show ?thesis by blast
  qed
  with run show "\<exists>st. run_attempts fl G geodesic rng start_node target tolerance max_percentage
               [0..<nat num_attempts] initial_state = Inr st \<and>
            find_loops fl G geodesic rng start_node target num_attempts tolerance
               max_percentage = Inr (loops st) \<and>
            (\<forall>k<nat num_attempts.
               \<exists>pr. random_choice2 (nodes G) (rng k) = Inr pr \<and> pr \<in> random_nodes st)"
    by (auto simp: find_loops_def)
qed

theorem find_loops_no_configuration_check_witness:
  "find_loops round_double square_graph taxicab alternating 1 4 (- 1) (- 1) 2 = Inr [] \<and>
   find_loops round_double (square_graph\<lparr>nodes := []\<rparr>) taxicab alternating 1 4 1 (- 1) 2
     = Inl ValueError \<and>
   find_loops round_double square_graph taxicab alternating 9 4 1 (- 1) 2 = Inl NodeNotFound \<and>
   (\<exists>st. run_attempts round_double square_graph taxicab alternating 1 4 (- 1) 2
            [0..<nat 2] initial_state = Inr st \<and>
         find_loops round_double square_graph taxicab alternating 1 4 2 (- 1) 2
            = Inr (loops st) \<and>
         (\<exists>pr. random_choice2 (nodes square_graph) (alternating 1) = Inr pr \<and>
               pr \<in> random_nodes st))"
proof -
  have s: "1 \<in> set (nodes square_graph)" by (simp add: square_graph_def)
  have a: "find_loops round_double square_graph taxicab alternating 1 4 (- 1) (- 1) 2 = Inr []"
    using find_loops_no_configuration_check[where num_attempts = "- 1", THEN conjunct1]
    by simp
  have b: "find_loops round_double (square_graph\<lparr>nodes := []\<rparr>) taxicab alternating 1 4 1
             (- 1) 2 = Inl ValueError"
    using find_loops_no_configuration_check[where num_attempts = 1
        and G = "square_graph\<lparr>nodes := []\<rparr>", THEN conjunct2, THEN conjunct1]
    by simp
  have d0: "random_choice2 (nodes square_graph) (alternating 0) = Inr (2, 3)"
    by (simp add: random_choice2_def square_graph_def alternating_def)
  have out: "shortest_path square_graph 9 2 = NotInGraph"
    by (simp add: square_graph_def square_sp_def)
  have c: "find_loops round_double square_graph taxicab alternating 9 4 1 (- 1) 2
             = Inl NodeNotFound"
    using find_loops_no_configuration_check[where num_attempts = 1 and G = square_graph
        and rng = alternating and ?node1.0 = 2 and ?node2.0 = 3 and start_node = 9,
        THEN conjunct2, THEN conjunct2, THEN conjunct1] d0 out
    by simp
  have f: "\<forall>u v. u \<in> set (nodes square_graph) \<and> v \<in> set (nodes square_graph)
              \<longrightarrow> shortest_path square_graph u v \<noteq> NotInGraph"
    using square_sp_in_graph by blast
  have l: "\<forall>u v p. shortest_path square_graph u v = Found p
              \<longrightarrow> set p \<subseteq> dom (coords square_graph)"
    using square_sp_located by blast
  from find_loops_no_configuration_check[where num_attempts = 2 and G = square_graph
      and rng = alternating and start_node = 1 and fl = round_double and geodesic = taxicab
      and target = 4 and tolerance = "- 1" and max_percentage = 2,
      THEN conjunct2, THEN conjunct2, THEN conjunct2, THEN mp, OF conjI[OF s conjI[OF f l]]]
  obtain st where
    r1: "run_attempts round_double square_graph taxicab alternating 1 4 (- 1) 2
            [0..<nat 2] initial_state = Inr st" and
    r2: "find_loops round_double square_graph taxicab alternating 1 4 2 (- 1) 2
            = Inr (loops st)" and
    r3: "\<forall>k<nat 2. \<exists>pr. random_choice2 (nodes square_graph) (alternating k) = Inr pr \<and>
         pr \<in> random_nodes st"
    by blast
  from r3[rule_format, of 1]
  have r4: "\<exists>pr. random_choice2 (nodes square_graph) (alternating 1) = Inr pr \<and>
               pr \<in> random_nodes st" by simp
  from r1 r2 r4
  have "\<exists>st. run_attempts round_double square_graph taxicab alternating 1 4 (- 1) 2
            [0..<nat 2] initial_state = Inr st \<and>
         find_loops round_double square_graph taxicab alternating 1 4 2 (- 1) 2
            = Inr (loops st) \<and>
         (\<exists>pr. random_choice2 (nodes square_graph) (alternating 1) = Inr pr \<and>
               pr \<in> random_nodes st)"
    by blast
  with a b c show ?thesis by simp
qed

text \<open>
  C3 as stated (an invalid configuration fails before any sampling) fails: with
  tolerance 0 the search samples and returns a loop, and with a negative budget, a
  negative tolerance and a threshold of 2 it returns the empty list.
\<close>

theorem find_loops_fails_fast_counterexample:
  "find_loops round_double square_graph taxicab alternating 1 4 2 0 (1 / 2)
     = Inr [([1, 2, 3, 4, 1], 4)] \<and>
   find_loops round_double square_graph taxicab alternating 1 4 (- 1) (- 1) 2 = Inr []"
  by (simp add: run_simps)

section \<open>The duplicate-node check\<close>

lemma length_twice_card:
  assumes "\<forall>x\<in>set path. count_list path x = 2"
  shows "length path = 2 * card (set path)"
proof -
  have "length path = sum (count_list path) (set path)"
    by (simp add: sum_count_set)
  also have "\<dots> = (\<Sum>x\<in>set path. 2)"
    using assms by (intro sum.cong) simp_all
  also have "\<dots> = 2 * card (set path)" by simp
  finally show ?thesis .
qed

lemma try_pair_after_alignment:
  assumes "pr \<notin> random_nodes st"
      and "shortest_path G s (fst pr) = Found p1"
      and "shortest_path G (fst pr) (snd pr) = Found p2"
      and "shortest_path G (snd pr) s = Found p3"
      and "fst pr \<notin> set p3" "snd pr \<notin> set p1"
  shows "try_pair fl G geodesic s tg tol mp pr st =
           (if too_many_duplicates fl mp (full_path p1 p2 p3)
            then Inr (st\<lparr>random_nodes := insert (snd pr, fst pr) (insert pr (random_nodes st))\<rparr>)
            else
              (case path_length_km fl G geodesic (full_path p1 p2 p3) of
                 Inl e \<Rightarrow> Inl e
               | Inr d \<Rightarrow>
                   if within_tolerance fl tg tol d
                   then Inr (st\<lparr>random_nodes :=
                                   insert (snd pr, fst pr) (insert pr (random_nodes st)),
                                 loops := loops st @ [(full_path p1 p2 p3, d)]\<rparr>)
                   else Inr (st\<lparr>random_nodes :=
                                   insert (snd pr, fst pr) (insert pr (random_nodes st))\<rparr>)))"
  using assms by (cases pr) (simp add: try_pair_def Let_def split: sum.splits)

lemma every_node_twice_rejected:
  assumes counts: "\<forall>n\<le>length path. fl (real n) = real n"
      and twice: "\<forall>x\<in>set path. count_list path x = 2"
  shows "too_many_duplicates fl (1 / 2) path"
proof -
  from twice have len: "length path = 2 * card (set path)" by (rule length_twice_card)
  then have le: "card (set path) \<le> length path" by simp
  from counts have a: "fl (real (length path)) = real (length path)" by simp
  from counts le have b: "fl (real (card (set path))) = real (card (set path))" by simp
  have "1 / 2 * real (length path) = real (card (set path))"
    using len by simp
  then show ?thesis
    by (simp only: too_many_duplicates_def a b)
qed

lemma no_repeats_pass:
  assumes "rounds_like_double fl" "fl threshold = threshold" "threshold < 1"
      and "length path < 2 ^ 53" "distinct path" "path \<noteq> []"
  shows "\<not> too_many_duplicates fl threshold path"
proof -
  from assms(6) have "0 < length path" by simp
  from product_below_count[OF assms(1,2,3) this assms(4)]
  have "fl (threshold * fl (real (length path))) < real (length path)" .
  moreover from assms(5) have "card (set path) = length path" by (rule distinct_card)
  ultimately show ?thesis by (simp add: too_many_duplicates_def)
qed

lemma no_repeats_pass_exact:
  assumes "threshold < 1" "distinct path" "path \<noteq> []"
  shows "\<not> too_many_duplicates exact threshold path"
proof -
  from assms(2) have c: "card (set path) = length path" by (rule distinct_card)
  from assms(3) have "0 < real (length path)" by simp
  with assms(1) have "threshold * real (length path) < 1 * real (length path)"
    by (intro mult_strict_right_mono) simp_all
  with c show ?thesis by (simp add: too_many_duplicates_def exact_def)
qed

text \<open>
  C5 (as amended). The duplicate check lets a path through exactly when its number of
  distinct nodes is greater than the product of the threshold and its number of nodes,
  that product being the double the code computes. A path in which every node occurs
  exactly twice is rejected at threshold 0.5 (its counts being doubles), and a
  non-empty path without repeated nodes passes at every double threshold below 1 in
  double arithmetic, and at every threshold below 1 without rounding. In the loop
  body, an attempt that has passed the alignment check appends nothing when the check
  rejects the concatenated path, and goes on to the length test otherwise.
\<close>

theorem duplicate_check:
  "(\<not> too_many_duplicates fl threshold path
      \<longleftrightarrow> real (card (set path)) > fl (threshold * fl (real (length path)))) \<and>
   ((\<forall>n\<le>length path. fl (real n) = real n) \<and> (\<forall>x\<in>set path. count_list path x = 2)
      \<longrightarrow> too_many_duplicates fl (1 / 2) path) \<and>
   (rounds_like_double fl \<and> fl threshold = threshold \<and> threshold < 1 \<and>
    length path < 2 ^ 53 \<and> distinct path \<and> path \<noteq> []
      \<longrightarrow> \<not> too_many_duplicates fl threshold path) \<and>
   (threshold < 1 \<and> distinct path \<and> path \<noteq> []
      \<longrightarrow> \<not> too_many_duplicates exact threshold path) \<and>
   (pr \<notin> random_nodes st \<and>
    shortest_path G start_node (fst pr) = Found path1 \<and>
    shortest_path G (fst pr) (snd pr) = Found path2 \<and>
    shortest_path G (snd pr) start_node = Found path3 \<and>
    fst pr \<notin> set path3 \<and> snd pr \<notin> set path1 \<longrightarrow>
      try_pair fl G geodesic start_node target tolerance threshold pr st =
        (if real (card (set (full_path path1 path2 path3)))
              > fl (threshold * fl (real (length (full_path path1 path2 path3))))
         then
           (case path_length_km fl G geodesic (full_path path1 path2 path3) of
              Inl e \<Rightarrow> Inl e
            | Inr d \<Rightarrow>
                if within_tolerance fl target tolerance d
                then Inr (st\<lparr>random_nodes :=
                                insert (snd pr, fst pr) (insert pr (random_nodes st)),
                              loops := loops st @ [(full_path path1 path2 path3, d)]\<rparr>)
                else Inr (st\<lparr>random_nodes :=
                                insert (snd pr, fst pr) (insert pr (random_nodes st))\<rparr>))
         else Inr (st\<lparr>random_nodes :=
                         insert (snd pr, fst pr) (insert pr (random_nodes st))\<rparr>)))"
proof (intro conjI impI)
  show "(\<not> too_many_duplicates fl threshold path)
          = (real (card (set path)) > fl (threshold * fl (real (length path))))"
    by (auto simp: too_many_duplicates_def)
next
  assume "(\<forall>n\<le>length path. fl (real n) = real n) \<and> (\<forall>x\<in>set path. count_list path x = 2)"
  then show "too_many_duplicates fl (1 / 2) path"
    using every_node_twice_rejected by blast
next
  assume "rounds_like_double fl \<and> fl threshold = threshold \<and> threshold < 1 \<and>
    length path < 2 ^ 53 \<and> distinct path \<and> path \<noteq> []"
  then show "\<not> too_many_duplicates fl threshold path"
    using no_repeats_pass by blast
next
  assume "threshold < 1 \<and> distinct path \<and> path \<noteq> []"
  then show "\<not> too_many_duplicates exact threshold path"
    using no_repeats_pass_exact by blast
next
  assume "pr \<notin> random_nodes st \<and>
    shortest_path G start_node (fst pr) = Found path1 \<and>
    shortest_path G (fst pr) (snd pr) = Found path2 \<and>
    shortest_path G (snd pr) start_node = Found path3 \<and>
    fst pr \<notin> set path3 \<and> snd pr \<notin> set path1"
  then have h: "pr \<notin> random_nodes st"
    "shortest_path G start_node (fst pr) = Found path1"
    "shortest_path G (fst pr) (snd pr) = Found path2"
    "shortest_path G (snd pr) start_node = Found path3"
    "fst pr \<notin> set path3" "snd pr \<notin> set path1" by simp_all
  show "try_pair fl G geodesic start_node target tolerance threshold pr st =
        (if real (card (set (full_path path1 path2 path3)))
              > fl (threshold * fl (real (length (full_path path1 path2 path3))))
         then
           (case path_length_km fl G geodesic (full_path path1 path2 path3) of
              Inl e \<Rightarrow> Inl e
            | Inr d \<Rightarrow>
                if within_tolerance fl target tolerance d
                then Inr (st\<lparr>random_nodes :=
                                insert (snd pr, fst pr) (insert pr (random_nodes st)),
                              loops := loops st @ [(full_path path1 path2 path3, d)]\<rparr>)
                else Inr (st\<lparr>random_nodes :=
                                insert (snd pr, fst pr) (insert pr (random_nodes st))\<rparr>))
         else Inr (st\<lparr>random_nodes :=
                         insert (snd pr, fst pr) (insert pr (random_nodes st))\<rparr>))"
    unfolding try_pair_after_alignment[OF h]
    by (simp add: too_many_duplicates_def not_le)
qed

theorem duplicate_check_witness:
  "too_many_duplicates round_double (1 / 2) [1, 2, 1, 2::int] \<and>
   \<not> too_many_duplicates round_double d06 [1, 2, 3::int] \<and>
   \<not> too_many_duplicates exact (99 / 100) [1, 2, 3::int] \<and>
   try_pair round_double square_graph taxicab 1 4 (1 / 8) (7 / 8) (2, 3) initial_state
     = Inr \<lparr>random_nodes = {(3, 2), (2, 3)}, loops = []\<rparr>"
proof -
  have nat_ok: "round_double (real n) = real n" if "n < 2 ^ 53" for n
    using round_double_like that by (simp add: rounds_like_double_def)
  have counts: "\<forall>n\<le>length [1, 2, 1, 2::int]. round_double (real n) = real n"
    by (auto intro!: nat_ok)
  have tw: "\<forall>x\<in>set [1, 2, 1, 2::int]. count_list [1, 2, 1, 2] x = 2" by simp
  have d06_double: "round_double d06 = d06"
    using round_double_over_power[of 5404319552844595 53] by (simp add: d06_def)
  have d06_less: "d06 < 1" by (simp add: d06_def)
  have legs: "shortest_path square_graph 1 2 = Found [1, 2]"
             "shortest_path square_graph 2 3 = Found [2, 3]"
             "shortest_path square_graph 3 1 = Found [3, 4, 1]"
    by (simp_all add: square_graph_def square_sp_def)
  have fp: "full_path [1, 2] [2, 3] [3, 4, 1::int] = [1, 2, 3, 4, 1]"
    by (simp add: full_path_def)
  have a: "too_many_duplicates round_double (1 / 2) [1, 2, 1, 2::int]"
    using duplicate_check[where path = "[1, 2, 1, 2::int]" and fl = round_double,
        THEN conjunct2, THEN conjunct1] tw counts
    by blast
  have b: "\<not> too_many_duplicates round_double d06 [1, 2, 3::int]"
    using duplicate_check[where path = "[1, 2, 3::int]" and threshold = d06
        and fl = round_double, THEN conjunct2, THEN conjunct2, THEN conjunct1]
      round_double_like d06_double d06_less
    by simp
  have c: "\<not> too_many_duplicates exact (99 / 100) [1, 2, 3::int]"
    using duplicate_check[where path = "[1, 2, 3::int]" and threshold = "99 / 100",
        THEN conjunct2, THEN conjunct2, THEN conjunct2, THEN conjunct1]
    by simp
  have d: "try_pair round_double square_graph taxicab 1 4 (1 / 8) (7 / 8) (2, 3) initial_state
     = Inr \<lparr>random_nodes = {(3, 2), (2, 3)}, loops = []\<rparr>"
    using duplicate_check[where pr = "(2, 3)" and st = initial_state and G = square_graph
        and start_node = 1 and ?path1.0 = "[1, 2]" and ?path2.0 = "[2, 3]"
        and ?path3.0 = "[3, 4, 1]" and threshold = "7 / 8" and geodesic = taxicab
        and target = 4 and tolerance = "1 / 8" and fl = round_double,
        THEN conjunct2, THEN conjunct2, THEN conjunct2, THEN conjunct2] legs
    by (simp add: fp initial_state_def card_insert_if round_double_simps)
  from a b c d show ?thesis by simp
qed

text \<open>
  C5 as stated (a path passes exactly when its distinct count is greater than the
  product of threshold and count) fails: at the threshold 0.6 the path
  \<open>[1, 2, 1, 3, 1]\<close> of the legs \<open>[1, 2]\<close>, \<open>[2, 1, 3]\<close>, \<open>[3, 1]\<close> has 3 distinct nodes
  of 5, and 3 is greater than the product of 5 and the double 0.6, but the product
  the code computes is 3 and the path is rejected.
\<close>

theorem duplicate_check_exact_counterexample:
  "too_many_duplicates round_double d06 [1, 2, 1, 3, 1::int] \<and>
   real (card (set [1, 2, 1, 3, 1::int])) > d06 * real (length [1, 2, 1, 3, 1::int])"
proof
  show "too_many_duplicates round_double d06 [1, 2, 1, 3, 1::int]"
    by (simp add: too_many_duplicates_def card_insert_if round_double_simps five_times_d06)
  show "real (card (set [1, 2, 1, 3, 1::int])) > d06 * real (length [1, 2, 1, 3, 1::int])"
    by (simp add: card_insert_if d06_def)
qed

section \<open>The similarity filter\<close>

lemma too_similar_iff:
  "too_similar fl thr N seen \<longleftrightarrow> (\<exists>P\<in>set seen. jaccard fl N P > thr)"
  by (induction seen) auto

lemma too_similar_Max:
  "too_similar fl thr N seen \<longleftrightarrow> seen \<noteq> [] \<and> Max (jaccard fl N ` set seen) > thr"
proof (cases "seen = []")
  case True
  then show ?thesis by simp
next
  case False
  then have "(thr < Max (jaccard fl N ` set seen)) = (\<exists>a\<in>jaccard fl N ` set seen. thr < a)"
    by (intro Max_gr_iff) simp_all
  with False show ?thesis by (auto simp: too_similar_iff)
qed

lemma filter_from_append:
  "filter_from fl thr (xs @ ys) state = filter_from fl thr ys (filter_from fl thr xs state)"
proof (induction xs arbitrary: state)
  case Nil
  then show ?case by simp
next
  case (Cons x xs)
  obtain path d where x: "x = (path, d)" by (cases x)
  obtain U seen where s: "state = (U, seen)" by (cases state)
  show ?case unfolding x s by (simp add: Cons.IH Let_def)
qed

lemma filter_from_seen:
  "seen = map (set \<circ> fst) U \<Longrightarrow>
   snd (filter_from fl thr xs (U, seen)) = map (set \<circ> fst) (fst (filter_from fl thr xs (U, seen)))"
proof (induction xs arbitrary: U seen)
  case Nil
  then show ?case by simp
next
  case (Cons x xs)
  obtain path d where x: "x = (path, d)" by (cases x)
  show ?case unfolding x using Cons.prems
    by (simp add: Let_def Cons.IH)
qed

lemma filter_from_subseq:
  "\<exists>zs. fst (filter_from fl thr xs (U, seen)) = U @ zs \<and> subseq zs xs"
proof (induction xs arbitrary: U seen)
  case Nil
  then show ?case by simp
next
  case (Cons x xs)
  obtain path d where x: "x = (path, d)" by (cases x)
  show ?case
  proof (cases "too_similar fl thr (set path) seen")
    case True
    from Cons.IH[of U seen] obtain zs where
      "fst (filter_from fl thr xs (U, seen)) = U @ zs" "subseq zs xs" by blast
    with True x show ?thesis by (auto simp: Let_def)
  next
    case False
    from Cons.IH[of "U @ [(path, d)]" "seen @ [set path]"] obtain zs where
      "fst (filter_from fl thr xs (U @ [(path, d)], seen @ [set path])) = (U @ [(path, d)]) @ zs"
      "subseq zs xs" by blast
    then have "fst (filter_from fl thr (x # xs) (U, seen)) = U @ ((path, d) # zs) \<and>
               subseq ((path, d) # zs) (x # xs)"
      using False x by (simp add: Let_def)
    then show ?thesis by blast
  qed
qed

lemma filter_similar_loops_snoc:
  "filter_similar_loops fl (xs @ [(path, d)]) thr =
     (if \<exists>a\<in>set (filter_similar_loops fl xs thr). jaccard fl (set path) (set (fst a)) > thr
      then filter_similar_loops fl xs thr
      else filter_similar_loops fl xs thr @ [(path, d)])"
proof -
  obtain U seen where r: "filter_from fl thr xs ([], []) = (U, seen)"
    by (cases "filter_from fl thr xs ([], [])")
  have "snd (filter_from fl thr xs ([], [])) = map (set \<circ> fst) (fst (filter_from fl thr xs ([], [])))"
    by (rule filter_from_seen) simp
  with r have seen: "seen = map (set \<circ> fst) U" by simp
  have U: "filter_similar_loops fl xs thr = U"
    by (simp add: filter_similar_loops_def r)
  have "too_similar fl thr (set path) seen
          \<longleftrightarrow> (\<exists>a\<in>set U. jaccard fl (set path) (set (fst a)) > thr)"
    by (simp add: too_similar_iff seen)
  then show ?thesis
    unfolding U by (simp add: filter_similar_loops_def filter_from_append r Let_def)
qed

lemma filter_similar_loops_subset:
  "set (filter_similar_loops fl xs thr) \<subseteq> set xs"
proof -
  from filter_from_subseq[of fl thr xs "[]" "[]"] obtain zs where
    "filter_similar_loops fl xs thr = zs" "subseq zs xs"
    by (auto simp: filter_similar_loops_def)
  then show ?thesis by (auto elim: list_emb_set)
qed

lemma filter_similar_loops_prefix:
  "\<exists>zs. filter_similar_loops fl (xs @ ys) thr = filter_similar_loops fl xs thr @ zs"
proof -
  obtain U seen where r: "filter_from fl thr xs ([], []) = (U, seen)"
    by (cases "filter_from fl thr xs ([], [])")
  from filter_from_subseq[of fl thr ys U seen] obtain zs where
    "fst (filter_from fl thr ys (U, seen)) = U @ zs" by blast
  then have "filter_similar_loops fl (xs @ ys) thr = filter_similar_loops fl xs thr @ zs"
    by (simp add: filter_similar_loops_def filter_from_append r)
  then show ?thesis by blast
qed

lemma jaccard_empty: "jaccard fl {} {} = 0"
  by (simp add: jaccard_def Let_def)

lemma filter_similar_loops_keeps_new:
  assumes "\<forall>a\<in>set xs. jaccard fl (set path) (set (fst a)) \<le> thr"
  shows "(path, d) \<in> set (filter_similar_loops fl (xs @ (path, d) # ys) thr)"
proof -
  have "\<not> (\<exists>a\<in>set (filter_similar_loops fl xs thr). jaccard fl (set path) (set (fst a)) > thr)"
    using assms filter_similar_loops_subset[of fl xs thr] by (auto simp: not_less)
  then have "filter_similar_loops fl (xs @ [(path, d)]) thr
               = filter_similar_loops fl xs thr @ [(path, d)]"
    by (simp only: filter_similar_loops_snoc if_False)
  moreover from filter_similar_loops_prefix[of fl "xs @ [(path, d)]" ys thr] obtain zs where
    "filter_similar_loops fl ((xs @ [(path, d)]) @ ys) thr
       = filter_similar_loops fl (xs @ [(path, d)]) thr @ zs" by blast
  ultimately show ?thesis by simp
qed

lemma two_thirds: "round_double (2 / 3) = d0666"
proof -
  have "round_double (2 / 3)
          = of_int (round_even (2 / 3 / 2 powr of_int (- 1 - 52))) * 2 powr of_int (- 1 - 52)"
    by (rule round_double_eval) (simp_all add: powr_neg_numeral)
  also have "\<dots> = d0666"
    by (simp add: d0666_def round_even_def Let_def powr_neg_numeral)
  finally show ?thesis .
qed

text \<open>
  C7 (as amended). \<open>filter_similar_loops\<close> works through the loops in input order: the
  result for a list extended by one candidate is the result for the list, followed by
  the candidate unless the largest Jaccard similarity between its node set and the node
  sets of the loops accepted so far, each quotient computed as a double, is strictly
  greater than the threshold. Two empty node sets have similarity 0, which for a
  threshold that is not negative never causes a discard. The first loop is always
  kept, a candidate that is not too similar to any earlier loop is kept, and the
  result is a subsequence of the input.
\<close>

theorem filter_similar_loops_order:
  "filter_similar_loops fl [] thr = [] \<and>
   filter_similar_loops fl (xs @ [(path, d)]) thr =
     (if filter_similar_loops fl xs thr \<noteq> [] \<and>
         Max ((\<lambda>a. jaccard fl (set path) (set (fst a))) ` set (filter_similar_loops fl xs thr)) > thr
      then filter_similar_loops fl xs thr
      else filter_similar_loops fl xs thr @ [(path, d)]) \<and>
   jaccard fl ({} :: 'n set) {} = 0 \<and>
   (0 \<le> thr \<and> (\<forall>a\<in>set (filter_similar_loops fl xs thr). set (fst a) = {}) \<longrightarrow>
      filter_similar_loops fl (xs @ [([], d)]) thr
        = filter_similar_loops fl xs thr @ [([], d)]) \<and>
   (\<exists>rest. filter_similar_loops fl (l # ls) thr = l # rest) \<and>
   ((\<forall>a\<in>set xs. jaccard fl (set path) (set (fst a)) \<le> thr) \<longrightarrow>
      (path, d) \<in> set (filter_similar_loops fl (xs @ (path, d) # ys) thr)) \<and>
   subseq (filter_similar_loops fl (ls :: ('n list \<times> real) list) thr) ls"
proof (intro conjI impI)
  show "filter_similar_loops fl [] thr = []"
    by (simp add: filter_similar_loops_def)
next
  let ?acc = "filter_similar_loops fl xs thr"
  have "(\<exists>a\<in>set ?acc. jaccard fl (set path) (set (fst a)) > thr) \<longleftrightarrow>
        (?acc \<noteq> [] \<and> Max ((\<lambda>a. jaccard fl (set path) (set (fst a))) ` set ?acc) > thr)"
  proof (cases "?acc = []")
    case True
    then show ?thesis by simp
  next
    case False
    then have "(thr < Max ((\<lambda>a. jaccard fl (set path) (set (fst a))) ` set ?acc))
          = (\<exists>v\<in>(\<lambda>a. jaccard fl (set path) (set (fst a))) ` set ?acc. thr < v)"
      by (intro Max_gr_iff) simp_all
    with False show ?thesis by auto
  qed
  then show "filter_similar_loops fl (xs @ [(path, d)]) thr =
     (if ?acc \<noteq> [] \<and> Max ((\<lambda>a. jaccard fl (set path) (set (fst a))) ` set ?acc) > thr
      then ?acc else ?acc @ [(path, d)])"
    by (simp only: filter_similar_loops_snoc)
next
  show "jaccard fl ({} :: 'n set) {} = 0" by (rule jaccard_empty)
next
  assume "0 \<le> thr \<and> (\<forall>a\<in>set (filter_similar_loops fl xs thr). set (fst a) = {})"
  then have "\<not> (\<exists>a\<in>set (filter_similar_loops fl xs thr).
                 jaccard fl (set []) (set (fst a)) > thr)"
    by (auto simp: jaccard_empty)
  then show "filter_similar_loops fl (xs @ [([], d)]) thr
               = filter_similar_loops fl xs thr @ [([], d)]"
    by (simp only: filter_similar_loops_snoc if_False)
next
  have one: "filter_similar_loops fl [l] thr = [l]"
    by (cases l) (simp add: filter_similar_loops_def)
  from filter_similar_loops_prefix[of fl "[l]" ls thr] obtain zs where
    "filter_similar_loops fl ([l] @ ls) thr = filter_similar_loops fl [l] thr @ zs" by blast
  with one show "\<exists>rest. filter_similar_loops fl (l # ls) thr = l # rest" by simp
next
  assume "\<forall>a\<in>set xs. jaccard fl (set path) (set (fst a)) \<le> thr"
  then show "(path, d) \<in> set (filter_similar_loops fl (xs @ (path, d) # ys) thr)"
    by (rule filter_similar_loops_keeps_new)
next
  from filter_from_subseq[of fl thr ls "[]" "[]"]
  show "subseq (filter_similar_loops fl ls thr) ls"
    by (auto simp: filter_similar_loops_def)
qed

theorem filter_similar_loops_order_witness:
  "filter_similar_loops round_double
     ([([1, 2, 3, 4, 1], 4)] @ [([1, 4, 3, 2, 1::int], 4)]) (3 / 4)
     = [([1, 2, 3, 4, 1], 4)] \<and>
   filter_similar_loops round_double ([([], 0)] @ [([], 0)]) (3 / 4)
     = [([] :: int list, 0), ([], 0)] \<and>
   ([5, 6], 1) \<in> set (filter_similar_loops round_double
                         ([([1, 2, 3, 4, 1::int], 4)] @ ([5, 6], 1) # [([5, 6], 1)]) (3 / 4)) \<and>
   subseq (filter_similar_loops round_double
             [([1, 2, 3, 4, 1], 4), ([1, 4, 3, 2, 1], 4), ([1, 2, 1::int], 2)] (3 / 4))
          [([1, 2, 3, 4, 1], 4), ([1, 4, 3, 2, 1], 4), ([1, 2, 1::int], 2)]"
proof -
  have one: "filter_similar_loops round_double [([1, 2, 3, 4, 1::int], 4)] (3 / 4)
               = [([1, 2, 3, 4, 1], 4)]"
    by (simp add: filter_similar_loops_def)
  have nil: "filter_similar_loops round_double [([] :: int list, 0)] (3 / 4) = [([], 0)]"
    by (simp add: filter_similar_loops_def)
  have a: "filter_similar_loops round_double
             ([([1, 2, 3, 4, 1], 4)] @ [([1, 4, 3, 2, 1::int], 4)]) (3 / 4)
     = [([1, 2, 3, 4, 1], 4)]"
    using filter_similar_loops_order[where xs = "[([1, 2, 3, 4, 1::int], 4)]"
        and path = "[1, 4, 3, 2, 1]" and d = 4 and thr = "3 / 4" and fl = round_double,
        THEN conjunct2, THEN conjunct1]
    by (simp add: one jaccard_def Let_def card_insert_if round_double_simps)
  have b: "filter_similar_loops round_double ([([], 0)] @ [([], 0)]) (3 / 4)
     = [([] :: int list, 0), ([], 0)]"
    using filter_similar_loops_order[where xs = "[([] :: int list, 0)]"
        and d = 0 and thr = "3 / 4" and fl = round_double,
        THEN conjunct2, THEN conjunct2, THEN conjunct2, THEN conjunct1]
    by (simp add: nil)
  have c: "([5, 6], 1) \<in> set (filter_similar_loops round_double
                         ([([1, 2, 3, 4, 1::int], 4)] @ ([5, 6], 1) # [([5, 6], 1)]) (3 / 4))"
    using filter_similar_loops_order[where xs = "[([1, 2, 3, 4, 1::int], 4)]"
        and path = "[5, 6]" and d = 1 and thr = "3 / 4" and ys = "[([5, 6], 1)]"
        and fl = round_double,
        THEN conjunct2, THEN conjunct2, THEN conjunct2, THEN conjunct2, THEN conjunct2,
        THEN conjunct1]
    by (simp add: jaccard_def Let_def card_insert_if round_double_simps)
  have e: "subseq (filter_similar_loops round_double
             [([1, 2, 3, 4, 1], 4), ([1, 4, 3, 2, 1], 4), ([1, 2, 1::int], 2)] (3 / 4))
          [([1, 2, 3, 4, 1], 4), ([1, 4, 3, 2, 1], 4), ([1, 2, 1::int], 2)]"
    using filter_similar_loops_order[where
        ls = "[([1, 2, 3, 4, 1], 4), ([1, 4, 3, 2, 1], 4), ([1, 2, 1::int], 2)]"
        and thr = "3 / 4" and fl = round_double,
        THEN conjunct2, THEN conjunct2, THEN conjunct2, THEN conjunct2, THEN conjunct2,
        THEN conjunct2]
    by simp
  from a b c e show ?thesis by simp
qed

text \<open>
  C7 as stated fails in two places. With the threshold 0.6666666666666666 the loops
  \<open>[1, 2]\<close> and \<open>[1, 2, 3]\<close> have Jaccard similarity 2/3, which is strictly greater than
  the threshold, but the quotient the code computes is the threshold itself and the
  second loop is kept. With the threshold -0.5 the similarity 0 of two empty node sets
  discards the second loop.
\<close>

theorem filter_similar_loops_exact_counterexample:
  "filter_similar_loops round_double [([1, 2], 1), ([1, 2, 3::int], 2)] d0666
     = [([1, 2], 1), ([1, 2, 3], 2)] \<and>
   real (card (set [1, 2, 3::int] \<inter> set [1, 2])) / real (card (set [1, 2, 3::int] \<union> set [1, 2]))
     > d0666 \<and>
   filter_similar_loops round_double [([] :: int list, 0), ([], 0)] (- 1 / 2) = [([], 0)]"
proof (intro conjI)
  show "filter_similar_loops round_double [([1, 2], 1), ([1, 2, 3::int], 2)] d0666
          = [([1, 2], 1), ([1, 2, 3], 2)]"
    by (simp add: filter_similar_loops_def jaccard_def Let_def card_insert_if two_thirds)
  show "real (card (set [1, 2, 3::int] \<inter> set [1, 2]))
          / real (card (set [1, 2, 3::int] \<union> set [1, 2])) > d0666"
    by (simp add: card_insert_if d0666_def)
  show "filter_similar_loops round_double [([] :: int list, 0), ([], 0)] (- 1 / 2) = [([], 0)]"
    by (simp add: filter_similar_loops_def jaccard_def Let_def)
qed

text \<open>
  C8. Filtering twice with the same threshold gives the same list as filtering once, for
  every list of loops and every threshold.
\<close>

theorem filter_similar_loops_idempotent:
  "filter_similar_loops fl (filter_similar_loops fl ls thr) thr = filter_similar_loops fl ls thr"
proof (induction ls rule: rev_induct)
  case Nil
  then show ?case by (simp add: filter_similar_loops_def)
next
  case (snoc x xs)
  obtain path d where x: "x = (path, d)" by (cases x)
  let ?acc = "filter_similar_loops fl xs thr"
  show ?case
  proof (cases "\<exists>a\<in>set ?acc. jaccard fl (set path) (set (fst a)) > thr")
    case True
    then have "filter_similar_loops fl (xs @ [x]) thr = ?acc"
      unfolding x by (simp only: filter_similar_loops_snoc if_True)
    with snoc.IH show ?thesis by simp
  next
    case False
    then have step: "filter_similar_loops fl (xs @ [x]) thr = ?acc @ [(path, d)]"
      unfolding x by (simp only: filter_similar_loops_snoc if_False)
    from False
    have "\<not> (\<exists>a\<in>set (filter_similar_loops fl ?acc thr). jaccard fl (set path) (set (fst a)) > thr)"
      by (simp add: snoc.IH)
    then have "filter_similar_loops fl (?acc @ [(path, d)]) thr
                 = filter_similar_loops fl ?acc thr @ [(path, d)]"
      by (simp only: filter_similar_loops_snoc if_False)
    with snoc.IH step show ?thesis by simp
  qed
qed

lemma filter_example:
  "filter_similar_loops round_double
     [([1, 2, 3, 4, 1], 4), ([1, 4, 3, 2, 1], 4), ([1, 2, 1::int], 2)] (3 / 4)
     = [([1, 2, 3, 4, 1], 4), ([1, 2, 1], 2)]"
  by (simp add: filter_similar_loops_def jaccard_def Let_def card_insert_if round_double_simps)

theorem filter_similar_loops_idempotent_witness:
  "filter_similar_loops round_double [([1, 2, 3, 4, 1], 4), ([1, 2, 1::int], 2)] (3 / 4)
     = [([1, 2, 3, 4, 1], 4), ([1, 2, 1], 2)]"
  using filter_similar_loops_idempotent[of round_double
      "[([1, 2, 3, 4, 1], 4), ([1, 4, 3, 2, 1], 4), ([1, 2, 1::int], 2)]" "3 / 4"]
  by (simp only: filter_example)

end
